theory Spec2Isabelle
  imports Complex_Main "HOL-Library.Multiset" "HOL-Library.Char_ord"
    "HOL-Library.List_Lexorder" "HOL-Library.Product_Lexorder"
begin

section \<open>Characters and strings\<close>

text \<open>
  A Python \<open>str\<close> is a sequence of code points. The model takes the code points below 256
  (\<^typ>\<open>char\<close>, read as Latin-1), so \<^typ>\<open>string\<close> counts what \<open>len\<close> counts. The
  character classes below are those of \<open>str.isspace\<close>, \<open>str.lower\<close>, \<open>str.isdigit\<close> and
  of the \<open>re\<close> module's \<open>\s\<close>, \<open>\d\<close>, \<open>\w\<close> on that range.
\<close>

definition code :: "char \<Rightarrow> nat" where
  "code c = of_char c"

definition is_space :: "char \<Rightarrow> bool" where
  "is_space c \<longleftrightarrow> (9 \<le> code c \<and> code c \<le> 13) \<or> (28 \<le> code c \<and> code c \<le> 32)
     \<or> code c = 133 \<or> code c = 160"

definition lower_char :: "char \<Rightarrow> char" where
  "lower_char c =
     (if (65 \<le> code c \<and> code c \<le> 90) \<or> (192 \<le> code c \<and> code c \<le> 222 \<and> code c \<noteq> 215)
      then char_of (code c + 32) else c)"

definition lower :: "string \<Rightarrow> string" where
  "lower s = map lower_char s"

definition strip :: "string \<Rightarrow> string" where
  "strip s = rev (dropWhile is_space (rev (dropWhile is_space s)))"

text \<open>\<open>re.sub(r'\s+', ' ', s)\<close>: every maximal run of whitespace becomes one space.\<close>

function collapse_ws :: "string \<Rightarrow> string" where
  "collapse_ws [] = []"
| "collapse_ws (c # cs) =
     (if is_space c then CHR '' '' # collapse_ws (dropWhile is_space cs)
      else c # collapse_ws cs)"
  by pat_completeness auto
termination
  by (relation "measure length") (auto simp: less_Suc_eq_le length_dropWhile_le)

text \<open>
  \<open>re.sub(r'^\*+|\*+$', '', s)\<close> on a string without line breaks (in \<open>canon\<close> the
  whitespace has been collapsed to spaces before): the leading and the trailing run of
  asterisks go.
\<close>

definition strip_asterisks :: "string \<Rightarrow> string" where
  "strip_asterisks s =
     rev (dropWhile (\<lambda>c. c = CHR ''*'') (rev (dropWhile (\<lambda>c. c = CHR ''*'') s)))"

definition canon :: "string \<Rightarrow> string" where
  "canon s = (if s = [] then [] else lower (strip_asterisks (collapse_ws (strip s))))"

subsection \<open>Substring search, joining, splitting\<close>

fun after_prefix :: "string \<Rightarrow> string \<Rightarrow> string option" where
  "after_prefix [] s = Some s"
| "after_prefix (p # ps) [] = None"
| "after_prefix (p # ps) (c # cs) = (if p = c then after_prefix ps cs else None)"

definition starts_with :: "string \<Rightarrow> string \<Rightarrow> bool" where
  "starts_with s p \<longleftrightarrow> after_prefix p s \<noteq> None"

text \<open>\<open>re.search\<close>: the pattern, given as a test on the text from a position on, is tried at
  every position from left to right.\<close>

fun re_search :: "(string \<Rightarrow> bool) \<Rightarrow> string \<Rightarrow> bool" where
  "re_search m [] = m []"
| "re_search m (c # cs) = (m (c # cs) \<or> re_search m cs)"

text \<open>\<open>needle in s\<close> on strings.\<close>

definition contains :: "string \<Rightarrow> string \<Rightarrow> bool" where
  "contains needle s = re_search (\<lambda>t. starts_with t needle) s"

text \<open>\<open>sep.join(xs)\<close>.\<close>

fun join :: "string \<Rightarrow> string list \<Rightarrow> string" where
  "join sep [] = []"
| "join sep [x] = x"
| "join sep (x # y # ys) = x @ sep @ join sep (y # ys)"

text \<open>
  \<open>s.split(sep)[-1]\<close> for a non-empty separator: the scan goes left to right, an occurrence
  of \<open>sep\<close> closes the current piece and the scan resumes behind it (\<open>skip\<close> counts the
  characters of the occurrence still to pass); the piece open at the end is the result.
\<close>

fun split_last :: "string \<Rightarrow> nat \<Rightarrow> string \<Rightarrow> string \<Rightarrow> string" where
  "split_last sep skip cur [] = cur"
| "split_last sep (Suc skip) cur (c # cs) = split_last sep skip cur cs"
| "split_last sep 0 cur (c # cs) =
     (if starts_with (c # cs) sep then split_last sep (length sep - 1) [] cs
      else split_last sep 0 (cur @ [c]) cs)"

text \<open>\<open>str.splitlines()\<close>: the line boundaries below 256 are \<open>\n\<close>, \<open>\r\<close>, \<open>\r\n\<close>,
  \<open>\v\<close>, \<open>\f\<close>, \<open>\x1c\<close>, \<open>\x1d\<close>, \<open>\x1e\<close> and \<open>\x85\<close>.\<close>

definition is_linebreak :: "char \<Rightarrow> bool" where
  "is_linebreak c \<longleftrightarrow> (10 \<le> code c \<and> code c \<le> 13) \<or> (28 \<le> code c \<and> code c \<le> 30)
     \<or> code c = 133"

fun splitlines_from :: "string \<Rightarrow> string \<Rightarrow> string list" where
  "splitlines_from cur [] = (if cur = [] then [] else [cur])"
| "splitlines_from cur (c # cs) =
     (if code c = 13 then
        (case cs of
           [] \<Rightarrow> [cur]
         | d # ds \<Rightarrow> if code d = 10 then cur # splitlines_from [] ds
                    else cur # splitlines_from [] cs)
      else if is_linebreak c then cur # splitlines_from [] cs
      else splitlines_from (cur @ [c]) cs)"

definition splitlines :: "string \<Rightarrow> string list" where
  "splitlines s = splitlines_from [] s"

text \<open>\<open>f'{n}'\<close> for a natural number: its decimal digits.\<close>

fun show_nat :: "nat \<Rightarrow> string" where
  "show_nat n =
     (if n < 10 then [char_of (48 + n)] else show_nat (n div 10) @ [char_of (48 + n mod 10)])"

section \<open>Constants\<close>

definition PREDETERMINED_WOBBLERS_CANON :: "string set" where
  "PREDETERMINED_WOBBLERS_CANON =
     {''shelf wobbler kit; alcohol version'', ''candy; counter kit'',
      ''shelf wobbler kit; non-alcohol version'', ''candy; shipper kit''}"

definition KIT_COUNTER :: string where "KIT_COUNTER = ''*CANDY; COUNTER KIT*''"
definition KIT_SHIPPER :: string where "KIT_SHIPPER = ''*CANDY; SHIPPER KIT*''"
definition KIT_ALC :: string where "KIT_ALC = ''*Shelf Wobbler Kit; Alcohol Version*''"
definition KIT_NONALC :: string where "KIT_NONALC = ''*Shelf Wobbler Kit; Non-Alcohol Version*''"

definition PROMO_WOBBLER_ALC_CANON :: string where
  "PROMO_WOBBLER_ALC_CANON = canon ''Shelf Wobbler Kit; Alcohol Version''"
definition PROMO_WOBBLER_NONALC_CANON :: string where
  "PROMO_WOBBLER_NONALC_CANON = canon ''Shelf Wobbler Kit; Non-Alcohol Version''"
definition TYPE_SHELF_WOBBLER_CANON :: string where
  "TYPE_SHELF_WOBBLER_CANON = canon ''Shelf Wobbler''"

section \<open>Header pages\<close>

text \<open>\<open>HEADER_STORE_RE = re.compile(r'Store:\s?[A-Z]\d{4}')\<close>. Below 256 the class \<open>\d\<close> is
  \<open>0\<close> to \<open>9\<close>.\<close>

definition is_upper_az :: "char \<Rightarrow> bool" where
  "is_upper_az c \<longleftrightarrow> 65 \<le> code c \<and> code c \<le> 90"

definition is_decimal :: "char \<Rightarrow> bool" where
  "is_decimal c \<longleftrightarrow> 48 \<le> code c \<and> code c \<le> 57"

fun letter_digits :: "string \<Rightarrow> bool" where
  "letter_digits (l # d1 # d2 # d3 # d4 # rest) \<longleftrightarrow>
     is_upper_az l \<and> is_decimal d1 \<and> is_decimal d2 \<and> is_decimal d3 \<and> is_decimal d4"
| "letter_digits _ \<longleftrightarrow> False"

text \<open>The pattern at the start of \<open>s\<close>: \<open>\s?\<close> first takes one whitespace character and,
  when the rest does not match behind it, none.\<close>

definition header_match :: "string \<Rightarrow> bool" where
  "header_match s =
     (case after_prefix ''Store:'' s of
        None \<Rightarrow> False
      | Some r \<Rightarrow>
          (case r of
             [] \<Rightarrow> False
           | c # r' \<Rightarrow> (is_space c \<and> letter_digits r') \<or> letter_digits r))"

definition is_header_page :: "string \<Rightarrow> bool" where
  "is_header_page txt = re_search header_match txt"

section \<open>Store classification\<close>

text \<open>
  The four patterns of \<open>clean_text_for_kits\<close> are sequences of \<open>\s*\<close> and of single
  characters matched with \<open>re.I\<close>. No pattern character is whitespace, so the greedy
  \<open>\s*\<close> never gives characters back: it takes the whole run of whitespace.
  \<open>match_pat\<close> gives the length of the match at the start of the text.
\<close>

datatype pat = Ws | Lit char

fun match_pat :: "pat list \<Rightarrow> string \<Rightarrow> nat option" where
  "match_pat [] s = Some 0"
| "match_pat (Ws # ps) s =
     map_option (\<lambda>n. length (takeWhile is_space s) + n) (match_pat ps (dropWhile is_space s))"
| "match_pat (Lit c # ps) [] = None"
| "match_pat (Lit c # ps) (d # ds) =
     (if lower_char d = lower_char c then map_option Suc (match_pat ps ds) else None)"

text \<open>
  \<open>re.sub(pattern, repl, t)\<close> for a pattern that matches no empty string (each of the four
  ends in a literal asterisk): the leftmost match is replaced and the scan resumes behind
  it; \<open>skip\<close> counts the characters of the match still to pass.
\<close>

fun re_sub :: "pat list \<Rightarrow> string \<Rightarrow> nat \<Rightarrow> string \<Rightarrow> string" where
  "re_sub p repl skip [] = []"
| "re_sub p repl (Suc skip) (c # cs) = re_sub p repl skip cs"
| "re_sub p repl 0 (c # cs) =
     (case match_pat p (c # cs) of
        Some n \<Rightarrow> repl @ re_sub p repl (n - 1) cs
      | None \<Rightarrow> c # re_sub p repl 0 cs)"

definition spaced :: "string \<Rightarrow> pat list" where
  "spaced s = concat (map (\<lambda>c. [Ws, Lit c]) s)"

definition clean_text_for_kits :: "string \<Rightarrow> string" where
  "clean_text_for_kits txt =
     (let t = collapse_ws txt;
          t = re_sub (spaced ''*CANDY;COUNTERKIT*'') KIT_COUNTER 0 t;
          t = re_sub (spaced ''*CANDY;SHIPPERKIT*'') KIT_SHIPPER 0 t;
          t = re_sub (spaced ''*Shelf'' @ [Ws] @ spaced ''Wobbler'' @ [Ws] @ spaced ''Kit;Alcohol''
                        @ [Ws] @ spaced ''Version*'') KIT_ALC 0 t;
          t = re_sub (spaced ''*Shelf'' @ [Ws] @ spaced ''Wobbler'' @ [Ws]
                        @ spaced ''Kit;Non-Alcohol'' @ [Ws] @ spaced ''Version*'') KIT_NONALC 0 t
      in t)"

record classification =
  cls_store_type :: string
  is_counter :: bool
  is_shipper :: bool
  is_alcohol :: bool
  is_non_alcohol :: bool

definition classify_store :: "string \<Rightarrow> classification" where
  "classify_store accum_text =
     (let t = clean_text_for_kits accum_text;
          counter = contains KIT_COUNTER t;
          shipper = contains KIT_SHIPPER t;
          alcohol = contains KIT_ALC t;
          nonalcohol = (contains KIT_NONALC t \<and> \<not> alcohol);
          alc = (if alcohol then ''Alcohol'' else if nonalcohol then ''Non-Alcohol'' else []);
          st = (if counter \<and> shipper then alc @ '' Counter + Shipper''
                else if counter then alc @ '' Counter''
                else if shipper then alc @ '' Shipper''
                else alc @ '' No Counter/Shipper'')
      in \<lparr>cls_store_type = strip st, is_counter = counter, is_shipper = shipper,
          is_alcohol = alcohol, is_non_alcohol = nonalcohol\<rparr>)"

section \<open>Header metadata\<close>

text \<open>The dict \<open>out\<close> of \<open>extract_store_info\<close> has at most the keys \<open>store\<close>, \<open>area\<close>,
  \<open>class\<close> and \<open>location\<close>; an absent key is \<open>None\<close>.\<close>

record meta_info =
  meta_store :: "string option"
  meta_area :: "string option"
  meta_class :: "string option"
  meta_location :: "string option"

definition no_meta :: meta_info where
  "no_meta = \<lparr>meta_store = None, meta_area = None, meta_class = None, meta_location = None\<rparr>"

text \<open>
  \<open>re.search(r'\b(NY|PA|OH|New York|Pennsylvania|Ohio)\b', line, re.I)\<close>. Below 256 the
  class \<open>\w\<close> is the ASCII letters and digits, the underscore and the Latin-1 letters and
  numerals. Every alternative begins and ends with a letter, so \<open>\b\<close> asks for no word
  character before the match and none behind it. The alternatives are tried in their
  order at each position; \<open>m.group().upper()\<close> is the alternative in capitals.
\<close>

definition is_word_char :: "char \<Rightarrow> bool" where
  "is_word_char c \<longleftrightarrow>
     (48 \<le> code c \<and> code c \<le> 57) \<or> (65 \<le> code c \<and> code c \<le> 90) \<or> code c = 95
     \<or> (97 \<le> code c \<and> code c \<le> 122)
     \<or> code c \<in> {170, 178, 179, 181, 185, 186, 188, 189, 190}
     \<or> (192 \<le> code c \<and> code c \<noteq> 215 \<and> code c \<noteq> 247)"

fun after_prefix_ci :: "string \<Rightarrow> string \<Rightarrow> string option" where
  "after_prefix_ci [] s = Some s"
| "after_prefix_ci (p # ps) [] = None"
| "after_prefix_ci (p # ps) (c # cs) =
     (if lower_char p = lower_char c then after_prefix_ci ps cs else None)"

definition word_ends :: "string \<Rightarrow> string \<Rightarrow> bool" where
  "word_ends alt s =
     (case after_prefix_ci alt s of
        None \<Rightarrow> False
      | Some r \<Rightarrow> (case r of [] \<Rightarrow> True | c # _ \<Rightarrow> \<not> is_word_char c))"

definition state_names :: "(string \<times> string) list" where
  "state_names =
     [(''NY'', ''NY''), (''PA'', ''PA''), (''OH'', ''OH''), (''New York'', ''NEW YORK''),
      (''Pennsylvania'', ''PENNSYLVANIA''), (''Ohio'', ''OHIO'')]"

fun state_search :: "bool \<Rightarrow> string \<Rightarrow> string option" where
  "state_search prev_word [] = None"
| "state_search prev_word (c # cs) =
     (case (if prev_word then None else find (\<lambda>(alt, up). word_ends alt (c # cs)) state_names) of
        Some (alt, up) \<Rightarrow> Some up
      | None \<Rightarrow> state_search (is_word_char c) cs)"

definition state_abbrev :: "string \<Rightarrow> string" where
  "state_abbrev nm =
     (if nm = ''NEW YORK'' then ''NY'' else if nm = ''PENNSYLVANIA'' then ''PA''
      else if nm = ''OHIO'' then ''OH'' else nm)"

definition info_line :: "string \<Rightarrow> meta_info \<Rightarrow> meta_info" where
  "info_line line out =
     (if contains ''Store:'' line
      then out\<lparr>meta_store := Some (strip (split_last ''Store:'' 0 [] line))\<rparr>
      else if contains ''Area:'' line
      then out\<lparr>meta_area := Some (strip (split_last ''Area:'' 0 [] line))\<rparr>
      else if contains ''Class:'' line
      then out\<lparr>meta_class := Some (strip (split_last ''Class:'' 0 [] line))\<rparr>
      else (case state_search False line of
              Some nm \<Rightarrow>
                if meta_location out = None then out\<lparr>meta_location := Some (state_abbrev nm)\<rparr>
                else out
            | None \<Rightarrow> out))"

fun info_lines :: "string list \<Rightarrow> meta_info \<Rightarrow> meta_info" where
  "info_lines [] out = out"
| "info_lines (line # rest) out =
     (if contains ''Sign Type'' line then out else info_lines rest (info_line line out))"

definition extract_store_info :: "string \<Rightarrow> meta_info" where
  "extract_store_info txt = info_lines (splitlines txt) no_meta"

section \<open>Pages and column detection\<close>

text \<open>
  What the functions below use of a PyMuPDF page. Coordinates are Python floats; they are
  read as real numbers and their arithmetic as exact. A call that can raise gives
  \<open>None\<close> when it does. \<open>iter_rows\<close> (the grouping of the page's words into rows, in
  floating-point geometry) is taken as the page's function from the band
  \<open>y_min\<close>, \<open>y_max\<close> to the rows it yields.
\<close>

record rect =
  x0 :: real
  y0 :: real
  x1 :: real
  y1 :: real

record row =
  type_text :: string
  promo_text :: string
  qty_text :: string
  row_rect :: rect

record page =
  get_text :: "string option"
  rect_width :: real
  rect_y1 :: real
  search_for :: "string \<Rightarrow> rect list option"
  iter_rows :: "real \<Rightarrow> real \<Rightarrow> row list"

record columns =
  x_promo_left :: real
  x_qty_left :: real
  header_bottom :: real

text \<open>\<open>rs[0] if rs else None\<close>.\<close>

definition first_hit :: "rect list \<Rightarrow> rect option" where
  "first_hit rs = (case rs of [] \<Rightarrow> None | r # _ \<Rightarrow> Some r)"

text \<open>The truth value of a \<open>fitz.Rect\<close>: false only when all four coordinates are 0.\<close>

definition rect_truthy :: "rect \<Rightarrow> bool" where
  "rect_truthy q \<longleftrightarrow> \<not> (x0 q = 0 \<and> y0 q = 0 \<and> x1 q = 0 \<and> y1 q = 0)"

text \<open>\<open>if not r: r = fitz.Rect(...)\<close>, for \<open>r\<close> a rectangle or \<open>None\<close>.\<close>

definition or_fallback :: "rect option \<Rightarrow> rect \<Rightarrow> rect" where
  "or_fallback r d = (case r of None \<Rightarrow> d | Some q \<Rightarrow> if rect_truthy q then q else d)"

text \<open>\<open>max(ys or [0])\<close>.\<close>

definition max_or_zero :: "real list \<Rightarrow> real" where
  "max_or_zero ys = (case ys of [] \<Rightarrow> 0 | y # rest \<Rightarrow> fold max rest y)"

definition detect_columns :: "page \<Rightarrow> columns" where
  "detect_columns pg =
     (case (search_for pg ''Sign Type'', search_for pg ''Promotion Name'',
            search_for pg ''Qty Ordered'') of
        (Some rs, Some rp, Some rq) \<Rightarrow>
          (let rect_sign = first_hit rs;
               w = rect_width pg;
               rect_promo = or_fallback (first_hit rp)
                              \<lparr>x0 = w * 0.25, y0 = 0, x1 = w * 0.55, y1 = 20\<rparr>;
               rect_qty = or_fallback (first_hit rq)
                            \<lparr>x0 = w * 0.80, y0 = 0, x1 = w * 0.95, y1 = 20\<rparr>;
               found = filter rect_truthy
                         ((case rect_sign of None \<Rightarrow> [] | Some q \<Rightarrow> [q]) @ [rect_promo, rect_qty])
           in \<lparr>x_promo_left = x0 rect_promo, x_qty_left = x0 rect_qty,
               header_bottom = max_or_zero (map y1 found)\<rparr>)
      | _ \<Rightarrow>
          \<lparr>x_promo_left = rect_width pg * 0.25, x_qty_left = rect_width pg * 0.80,
           header_bottom = 0\<rparr>)"

section \<open>Store indexing\<close>

record item =
  item_type :: string
  promo :: string
  qty :: int

text \<open>
  A store dict. \<open>index_stores\<close> creates it without the keys \<open>items\<close>,
  \<open>drop_nonalc_wobbler\<close> and \<open>fits_envelope\<close>; until they are assigned they stand at
  \<open>[]\<close> and \<open>False\<close>, which is what \<open>s.get('items', [])\<close> and
  \<open>store.get('drop_nonalc_wobbler')\<close> read then.
\<close>

record store =
  store_id :: string
  store_name :: string
  store_type :: string
  location :: string
  store_class :: string
  pages :: "nat list"
  meta :: meta_info
  items :: "item list"
  drop_nonalc_wobbler :: bool
  fits_envelope :: bool

text \<open>The loop state of \<open>index_stores\<close>: \<open>current\<close> is \<open>None\<close> or the page list of the open
  store.\<close>

record index_state =
  stores_acc :: "store list"
  current :: "nat list option"
  accum :: string
  cur_meta :: meta_info

definition get_or :: "'a option \<Rightarrow> 'a \<Rightarrow> 'a" where
  "get_or v d = (case v of None \<Rightarrow> d | Some x \<Rightarrow> x)"

definition close_store :: "string \<Rightarrow> index_state \<Rightarrow> nat list \<Rightarrow> store" where
  "close_store unknown st pgs =
     (let cls = classify_store (accum st);
          name = get_or (meta_store (cur_meta st)) unknown;
          store_cls = get_or (meta_class (cur_meta st)) []
      in \<lparr>store_id = name @ ''|'' @ store_cls, store_name = name,
          store_type = cls_store_type cls,
          location = get_or (meta_location (cur_meta st)) [],
          store_class = store_cls, pages = pgs, meta = cur_meta st,
          items = [], drop_nonalc_wobbler = False, fits_envelope = False\<rparr>)"

definition index_page :: "nat \<Rightarrow> page \<Rightarrow> index_state \<Rightarrow> index_state" where
  "index_page i pg st =
     (case get_text pg of
        None \<Rightarrow> st
      | Some txt \<Rightarrow>
          if strip txt = [] then st
          else if is_header_page txt then
            \<lparr>stores_acc =
               (case current st of
                  None \<Rightarrow> stores_acc st
                | Some pgs \<Rightarrow> stores_acc st @ [close_store (''UNKNOWN_'' @ show_nat i) st pgs]),
             current = Some [i], accum = txt @ '' '', cur_meta = extract_store_info txt\<rparr>
          else
            st\<lparr>accum := accum st @ txt @ '' '',
               current := map_option (\<lambda>pgs. pgs @ [i]) (current st)\<rparr>)"

fun index_loop :: "nat \<Rightarrow> page list \<Rightarrow> index_state \<Rightarrow> index_state" where
  "index_loop i [] st = st"
| "index_loop i (pg # rest) st = index_loop (Suc i) rest (index_page i pg st)"

definition index_stores :: "page list \<Rightarrow> store list" where
  "index_stores doc =
     (let st = index_loop 0 doc \<lparr>stores_acc = [], current = None, accum = [], cur_meta = no_meta\<rparr>
      in case current st of
           None \<Rightarrow> stores_acc st
         | Some pgs \<Rightarrow> stores_acc st @ [close_store ''UNKNOWN_END'' st pgs])"

section \<open>Item extraction\<close>

datatype py_error = ValueError | IndexError | KeyError

text \<open>\<open>str.isdigit\<close>: below 256 its characters are \<open>0\<close> to \<open>9\<close> and the superscripts
  \<open>\<twosuperior>\<close>, \<open>\<threesuperior>\<close>, \<open>\<onesuperior>\<close> (178, 179, 185).\<close>

definition is_digit_char :: "char \<Rightarrow> bool" where
  "is_digit_char c \<longleftrightarrow> is_decimal c \<or> code c = 178 \<or> code c = 179 \<or> code c = 185"

definition isdigit :: "string \<Rightarrow> bool" where
  "isdigit s \<longleftrightarrow> s \<noteq> [] \<and> list_all is_digit_char s"

definition decimal_value :: "string \<Rightarrow> nat" where
  "decimal_value s = foldl (\<lambda>n c. 10 * n + (code c - 48)) 0 s"

text \<open>\<open>int(s)\<close> on a string for which \<open>isdigit\<close> holds: a superscript digit is no decimal
  digit and raises \<open>ValueError\<close>. (The limit that newer interpreters put on the number of
  digits, beyond 4300, is left out.)\<close>

definition py_int :: "string \<Rightarrow> py_error + int" where
  "py_int s = (if list_all is_decimal s then Inr (int (decimal_value s)) else Inl ValueError)"

text \<open>\<open>re.search(r'[a-z]+://|www\.', pr, re.I)\<close>.\<close>

definition is_ascii_letter :: "char \<Rightarrow> bool" where
  "is_ascii_letter c \<longleftrightarrow> (65 \<le> code c \<and> code c \<le> 90) \<or> (97 \<le> code c \<and> code c \<le> 122)"

definition url_match :: "string \<Rightarrow> bool" where
  "url_match s \<longleftrightarrow>
     (takeWhile is_ascii_letter s \<noteq> [] \<and> starts_with (dropWhile is_ascii_letter s) ''://'')
     \<or> after_prefix_ci ''www.'' s \<noteq> None"

definition looks_like_url :: "string \<Rightarrow> bool" where
  "looks_like_url pr = re_search url_match pr"

record extract_state =
  items_acc :: "item list"
  last_type :: "string option"
  promo_buf :: "string list"

definition extract_row :: "row \<Rightarrow> extract_state \<Rightarrow> py_error + extract_state" where
  "extract_row r st =
     (let t = strip (type_text r);
          pr = strip (promo_text r);
          qt = strip (qty_text r);
          st = (if t \<noteq> [] then st\<lparr>last_type := Some t\<rparr> else st)
      in if contains ''Sign Type Total'' (t @ '' '' @ pr)
         then Inr (st\<lparr>last_type := None, promo_buf := []\<rparr>)
         else if isdigit qt \<and> last_type st \<noteq> None then
           (let full_promo = strip (join '' '' (filter (\<lambda>p. p \<noteq> []) (promo_buf st @ [pr])))
            in if full_promo \<noteq> [] then
                 (case py_int qt of
                    Inl e \<Rightarrow> Inl e
                  | Inr n \<Rightarrow>
                      Inr (st\<lparr>items_acc := items_acc st @
                                 [\<lparr>item_type = get_or (last_type st) [], promo = full_promo, qty = n\<rparr>],
                              promo_buf := []\<rparr>))
               else Inr (st\<lparr>promo_buf := []\<rparr>))
         else if pr \<noteq> [] \<and> \<not> looks_like_url pr then Inr (st\<lparr>promo_buf := promo_buf st @ [pr]\<rparr>)
         else Inr st)"

text \<open>The loops stop at the first exception; the \<open>except\<close> clause of
  \<open>extract_items_from_pages\<close> then returns the items appended so far.\<close>

fun extract_rows :: "row list \<Rightarrow> extract_state \<Rightarrow> (py_error \<times> item list) + extract_state" where
  "extract_rows [] st = Inr st"
| "extract_rows (r # rs) st =
     (case extract_row r st of
        Inl e \<Rightarrow> Inl (e, items_acc st)
      | Inr st' \<Rightarrow> extract_rows rs st')"

fun extract_pages ::
  "page list \<Rightarrow> nat list \<Rightarrow> extract_state \<Rightarrow> (py_error \<times> item list) + extract_state" where
  "extract_pages doc [] st = Inr st"
| "extract_pages doc (p # ps) st =
     (if p < length doc then
        (let pg = doc ! p;
             cols = detect_columns pg;
             y_min = header_bottom cols + 2;
             y_max = rect_y1 pg - 36
         in case extract_rows (iter_rows pg y_min y_max) st of
              Inl e \<Rightarrow> Inl e
            | Inr st' \<Rightarrow> extract_pages doc ps st')
      else Inl (IndexError, items_acc st))"

definition extract_items_from_pages :: "page list \<Rightarrow> nat list \<Rightarrow> item list" where
  "extract_items_from_pages doc pgs =
     (case extract_pages doc pgs \<lparr>items_acc = [], last_type = None, promo_buf = []\<rparr> of
        Inl (e, its) \<Rightarrow> its
      | Inr st \<Rightarrow> items_acc st)"

section \<open>Wobbler kit grouping\<close>

definition is_predetermined_wobbler :: "string \<Rightarrow> bool" where
  "is_predetermined_wobbler p \<longleftrightarrow> canon p \<in> PREDETERMINED_WOBBLERS_CANON"

record kit_item =
  kit_promo :: string
  kit_qty :: int

record kit =
  kit_name :: string
  kit_items :: "kit_item list"
  kit_stores :: "string list"
  store_ids :: "string list"
  store_count :: int

type_synonym signature = "(string \<times> int) list"

text \<open>\<open>rep_text\<close> is a dict from canonical promo to the first spelling seen; \<open>combos\<close> is an
  \<open>OrderedDict\<close> from signature to the list of (store id, store name), kept as an
  association list in insertion order.\<close>

type_synonym combos = "(signature \<times> (string \<times> string) list) list"

definition setdefault :: "(string \<rightharpoonup> string) \<Rightarrow> string \<Rightarrow> string \<Rightarrow> (string \<rightharpoonup> string)" where
  "setdefault m k v = (case m k of None \<Rightarrow> m(k \<mapsto> v) | Some _ \<Rightarrow> m)"

text \<open>One pass of the loop over a store's items: the state is \<open>rep_text\<close> and \<open>wob\<close>.\<close>

definition wob_item ::
  "item \<Rightarrow> (string \<rightharpoonup> string) \<times> signature \<Rightarrow> (string \<rightharpoonup> string) \<times> signature" where
  "wob_item it st =
     (case st of (rep_text, wob) \<Rightarrow>
        if canon (item_type it) \<noteq> TYPE_SHELF_WOBBLER_CANON then (rep_text, wob)
        else if is_predetermined_wobbler (promo it) then (rep_text, wob)
        else (let cp = canon (promo it)
              in (setdefault rep_text cp (promo it), wob @ [(cp, qty it)])))"

text \<open>\<open>combos.setdefault(key, []).append(v)\<close>.\<close>

fun combos_append :: "signature \<Rightarrow> string \<times> string \<Rightarrow> combos \<Rightarrow> combos" where
  "combos_append key v [] = [(key, [v])]"
| "combos_append key v ((k, l) # rest) =
     (if k = key then (k, l @ [v]) # rest else (k, l) # combos_append key v rest)"

definition wob_store ::
  "store \<Rightarrow> (string \<rightharpoonup> string) \<times> combos \<Rightarrow> (string \<rightharpoonup> string) \<times> combos" where
  "wob_store s st =
     (case st of (rep_text, combos) \<Rightarrow>
        (case fold wob_item (items s) (rep_text, []) of (rep_text', wob) \<Rightarrow>
           if length wob \<le> 1 then (rep_text', combos)
           else (rep_text', combos_append (sort wob) (store_id s, store_name s) combos)))"

text \<open>\<open>[{'promo': rep_text[p], 'qty': q} for (p, q) in key]\<close>; a missing key raises.\<close>

fun items_disp :: "(string \<rightharpoonup> string) \<Rightarrow> signature \<Rightarrow> py_error + kit_item list" where
  "items_disp rep_text [] = Inr []"
| "items_disp rep_text ((p, q) # rest) =
     (case rep_text p of
        None \<Rightarrow> Inl KeyError
      | Some t \<Rightarrow>
          (case items_disp rep_text rest of
             Inl e \<Rightarrow> Inl e
           | Inr ds \<Rightarrow> Inr (\<lparr>kit_promo = t, kit_qty = q\<rparr> # ds)))"

fun build_kits :: "(string \<rightharpoonup> string) \<Rightarrow> int \<Rightarrow> nat \<Rightarrow> combos \<Rightarrow> py_error + kit list" where
  "build_kits rep_text min_stores idx [] = Inr []"
| "build_kits rep_text min_stores idx ((key, store_list) # rest) =
     (if int (length store_list) < min_stores then build_kits rep_text min_stores idx rest
      else
        (case items_disp rep_text key of
           Inl e \<Rightarrow> Inl e
         | Inr ds \<Rightarrow>
             (case build_kits rep_text min_stores (Suc idx) rest of
                Inl e \<Rightarrow> Inl e
              | Inr ks \<Rightarrow>
                  Inr (\<lparr>kit_name = show_nat idx, kit_items = ds,
                        kit_stores = sort (map snd store_list),
                        store_ids = map fst store_list,
                        store_count = int (length store_list)\<rparr> # ks))))"

text \<open>The kits before \<open>kits.sort\<close>.\<close>

definition labelled_kits :: "store list \<Rightarrow> int \<Rightarrow> py_error + kit list" where
  "labelled_kits stores min_stores =
     (case fold wob_store stores (Map.empty, []) of
        (rep_text, combos) \<Rightarrow> build_kits rep_text min_stores 1 combos)"

text \<open>\<open>kits.sort(key=lambda k: k['store_count'], reverse=True)\<close>: a stable sort, so kits
  of equal count keep their order.\<close>

definition sort_kits :: "kit list \<Rightarrow> kit list" where
  "sort_kits ks = sort_key (\<lambda>k. - store_count k) ks"

definition kit_lookup :: "kit list \<Rightarrow> (string \<rightharpoonup> string)" where
  "kit_lookup ks =
     fold (\<lambda>k m. fold (\<lambda>sid m'. m'(sid \<mapsto> kit_name k)) (store_ids k) m) ks Map.empty"

definition group_wobbler_kits :: "store list \<Rightarrow> int \<Rightarrow> kit list \<times> (string \<rightharpoonup> string)" where
  "group_wobbler_kits stores min_stores =
     (case labelled_kits stores min_stores of
        Inl e \<Rightarrow> ([], Map.empty)
      | Inr ks \<Rightarrow> (sort_kits ks, kit_lookup (sort_kits ks)))"

section \<open>Envelope fit\<close>

text \<open>\<open>seen\<close> is an \<open>OrderedDict\<close> from canonical sign type to the first spelling.\<close>

definition seen_item :: "item \<Rightarrow> (string \<times> string) list \<Rightarrow> (string \<times> string) list" where
  "seen_item it seen =
     (let st = strip (item_type it)
      in if st \<noteq> [] \<and> canon st \<notin> set (map fst seen) then seen @ [(canon st, st)] else seen)"

definition unique_sign_types :: "store list \<Rightarrow> string list" where
  "unique_sign_types stores = map snd (fold (\<lambda>s seen. fold seen_item (items s) seen) stores [])"

text \<open>\<open>fit_cfg\<close> is a dict from key to a list of labels; \<open>fit_cfg.get("will_fit", [])\<close>.\<close>

definition will_set :: "(string \<rightharpoonup> string list) \<Rightarrow> string set" where
  "will_set fit_cfg = canon ` set (get_or (fit_cfg ''will_fit'') [])"

definition set_fit :: "string set \<Rightarrow> store \<Rightarrow> store" where
  "set_fit will s =
     (if items s = [] then s\<lparr>fits_envelope := False\<rparr>
      else s\<lparr>fits_envelope := list_all (\<lambda>it. canon (item_type it) \<in> will) (items s)\<rparr>)"

text \<open>The store dicts are updated in place: the first component is the list \<open>stores\<close>
  after the call, the other two are the returned \<open>fits\<close> and \<open>not_fits\<close>.\<close>

definition compute_envelope_fit ::
  "store list \<Rightarrow> (string \<rightharpoonup> string list) \<Rightarrow> store list \<times> store list \<times> store list" where
  "compute_envelope_fit stores fit_cfg =
     (let will = will_set fit_cfg;
          stores' = map (set_fit will) stores
      in (stores', filter fits_envelope stores', filter (\<lambda>s. \<not> fits_envelope s) stores'))"

section \<open>Main processing\<close>

fun drop_nonalc_loop :: "item list \<Rightarrow> bool \<Rightarrow> bool \<Rightarrow> bool" where
  "drop_nonalc_loop [] has_alc has_non = False"
| "drop_nonalc_loop (it # rest) has_alc has_non =
     (if canon (item_type it) \<noteq> TYPE_SHELF_WOBBLER_CANON then drop_nonalc_loop rest has_alc has_non
      else
        (let p = canon (promo it);
             has_alc' = (has_alc \<or> p = PROMO_WOBBLER_ALC_CANON);
             has_non' = (has_non \<or> (p \<noteq> PROMO_WOBBLER_ALC_CANON \<and> p = PROMO_WOBBLER_NONALC_CANON))
         in if has_alc' \<and> has_non' then True else drop_nonalc_loop rest has_alc' has_non'))"

definition store_should_drop_nonalc :: "item list \<Rightarrow> bool" where
  "store_should_drop_nonalc its = drop_nonalc_loop its False False"

text \<open>Step 1 of \<open>process_pdf_sorted_with_kits_and_envelopes\<close>: the stores of the document
  with their items.\<close>

definition stores_of :: "page list \<Rightarrow> store list" where
  "stores_of doc =
     map (\<lambda>s. let its = extract_items_from_pages doc (pages s)
               in s\<lparr>items := its, drop_nonalc_wobbler := store_should_drop_nonalc its\<rparr>)
         (index_stores doc)"

text \<open>
  What a run does to the user and to the output document, in the order it happens:
  message boxes, \<open>out = fitz.open()\<close>, the pages put into \<open>out\<close>, \<open>out.save\<close>.
\<close>

datatype effect =
    ShowError string string
  | ShowInfo string
  | OpenOutput
  | OutputPages nat
  | SaveOutput

text \<open>
  The source document is \<open>None\<close> when \<open>fitz.open(input_file)\<close> raises. \<open>ask\<close> is the
  envelope-fit dialog \<open>gui_envelope_fit\<close>: the configuration the user leaves it with.
  \<open>render\<close> stands for steps 4 and 6 behind \<open>out = fitz.open()\<close> (sorting the buckets,
  the summary page, \<open>render_store_group\<close>, the kit appendix, all PyMuPDF drawing): it
  gives the number of pages put into \<open>out\<close> and whether it ran through without an
  exception. The loading of the two configuration files before the document is opened
  and the debug log are left out: they touch neither the dialogs nor \<open>out\<close>.
\<close>

definition process_pdf_sorted_with_kits_and_envelopes ::
  "page list option \<Rightarrow> (string list \<Rightarrow> (string \<rightharpoonup> string list)) \<Rightarrow>
   (store list \<Rightarrow> store list \<Rightarrow> store list \<Rightarrow> kit list \<times> (string \<rightharpoonup> string) \<Rightarrow> nat \<times> bool) \<Rightarrow>
   effect list" where
  "process_pdf_sorted_with_kits_and_envelopes src ask render =
     (case src of
        None \<Rightarrow> [ShowError ''Error'' ''A fatal error occurred. See kwik_debug.log for details.'']
      | Some doc \<Rightarrow>
          (let stores = stores_of doc;
               no_order_stores = filter (\<lambda>s. items s = []) stores;
               stores_with_items = filter (\<lambda>s. items s \<noteq> []) stores;
               sign_types = unique_sign_types stores_with_items
           in if sign_types = []
              then [ShowError ''Envelope Fit'' ''No sign types found in this PDF.'']
              else
                (let fit_cfg = ask sign_types;
                     (stores_with_items', fits, not_fits) =
                        compute_envelope_fit stores_with_items fit_cfg;
                     kits = group_wobbler_kits stores_with_items' 10;
                     (n, finished) = render no_order_stores fits not_fits kits
                 in if finished
                    then [OpenOutput, OutputPages n, SaveOutput, ShowInfo ''Complete'']
                    else [OpenOutput, OutputPages n,
                          ShowError ''Error''
                            ''A fatal error occurred. See kwik_debug.log for details.''])))"

section \<open>Notions used in the statements\<close>

text \<open>A canonical string begins or ends with a space.\<close>

definition edge_space :: "string \<Rightarrow> bool" where
  "edge_space t \<longleftrightarrow> t \<noteq> [] \<and> (hd t = CHR '' '' \<or> last t = CHR '' '')"

text \<open>Whitespace is collapsed: every whitespace character is a space and no two are
  adjacent.\<close>

fun ws_normal :: "string \<Rightarrow> bool" where
  "ws_normal [] = True"
| "ws_normal [c] = (is_space c \<longrightarrow> c = CHR '' '')"
| "ws_normal (c # d # cs) =
     ((is_space c \<longrightarrow> c = CHR '' '' \<and> \<not> is_space d) \<and> ws_normal (d # cs))"

text \<open>The header pattern as the specification words it: \<open>Store:\<close> and one space, then
  one letter and four digits.\<close>

fun spec_letter_digits :: "string \<Rightarrow> bool" where
  "spec_letter_digits (l # d1 # d2 # d3 # d4 # rest) \<longleftrightarrow>
     is_ascii_letter l \<and> is_decimal d1 \<and> is_decimal d2 \<and> is_decimal d3 \<and> is_decimal d4"
| "spec_letter_digits _ \<longleftrightarrow> False"

definition spec_header_page :: "string \<Rightarrow> bool" where
  "spec_header_page txt =
     re_search (\<lambda>t. case after_prefix ''Store: '' t of None \<Rightarrow> False
                     | Some r \<Rightarrow> spec_letter_digits r) txt"

text \<open>A page that \<open>index_stores\<close> passes over: its text cannot be extracted or is blank.\<close>

definition skipped :: "page \<Rightarrow> bool" where
  "skipped pg = (case get_text pg of None \<Rightarrow> True | Some txt \<Rightarrow> strip txt = [])"

definition header_at :: "page list \<Rightarrow> nat \<Rightarrow> bool" where
  "header_at doc i \<longleftrightarrow>
     i < length doc \<and> (case get_text (doc ! i) of None \<Rightarrow> False
                        | Some txt \<Rightarrow> strip txt \<noteq> [] \<and> is_header_page txt)"

text \<open>A contiguous run of indices.\<close>

definition contiguous_run :: "nat list \<Rightarrow> bool" where
  "contiguous_run q \<longleftrightarrow> q = [hd q ..< hd q + length q]"

text \<open>The specification's words for the kit grouping: the (canonical promo, qty) pairs of
  a store's Shelf Wobbler items that are not predetermined; the stores that share a
  signature; the signature a kit shows.\<close>

definition qualifying_pairs :: "store \<Rightarrow> signature" where
  "qualifying_pairs s =
     map (\<lambda>it. (canon (promo it), qty it))
       (filter (\<lambda>it. canon (item_type it) = canon ''Shelf Wobbler''
                     \<and> canon (promo it) \<notin> PREDETERMINED_WOBBLERS_CANON) (items s))"

definition qualifies :: "store \<Rightarrow> bool" where
  "qualifies s \<longleftrightarrow> 2 \<le> length (qualifying_pairs s)"

definition group_members :: "store list \<Rightarrow> signature \<Rightarrow> store list" where
  "group_members stores sig =
     filter (\<lambda>s. qualifies s \<and> sort (qualifying_pairs s) = sig) stores"

definition kit_signature :: "kit \<Rightarrow> signature" where
  "kit_signature k = map (\<lambda>d. (canon (kit_promo d), kit_qty d)) (kit_items k)"

text \<open>The signatures of the qualifying stores, each once, in the order of first
  appearance; and those whose group reaches the threshold.\<close>

definition first_seen :: "'a list \<Rightarrow> 'a list" where
  "first_seen xs = rev (remdups (rev xs))"

definition signatures_seen :: "store list \<Rightarrow> signature list" where
  "signatures_seen stores =
     first_seen (map (\<lambda>s. sort (qualifying_pairs s)) (filter qualifies stores))"

definition retained :: "store list \<Rightarrow> int \<Rightarrow> signature list" where
  "retained stores min_stores =
     filter (\<lambda>sig. min_stores \<le> int (length (group_members stores sig))) (signatures_seen stores)"

section \<open>Example data\<close>

text \<open>A page without header anchors and without rows, carrying the text \<open>txt\<close>; a page
  with rows; a row; an item; a store with items.\<close>

definition text_page :: "string \<Rightarrow> page" where
  "text_page txt =
     \<lparr>get_text = Some txt, rect_width = 612, rect_y1 = 792, search_for = (\<lambda>_. Some []),
      iter_rows = (\<lambda>_ _. [])\<rparr>"

definition rows_page :: "string \<Rightarrow> row list \<Rightarrow> page" where
  "rows_page txt rs = (text_page txt)\<lparr>iter_rows := (\<lambda>_ _. rs)\<rparr>"

definition mk_row :: "string \<Rightarrow> string \<Rightarrow> string \<Rightarrow> row" where
  "mk_row t p q =
     \<lparr>type_text = t, promo_text = p, qty_text = q,
      row_rect = \<lparr>x0 = 0, y0 = 0, x1 = 0, y1 = 0\<rparr>\<rparr>"

definition mk_item :: "string \<Rightarrow> string \<Rightarrow> int \<Rightarrow> item" where
  "mk_item t p q = \<lparr>item_type = t, promo = p, qty = q\<rparr>"

definition mk_store :: "string \<Rightarrow> item list \<Rightarrow> store" where
  "mk_store name its =
     \<lparr>store_id = name @ ''|'', store_name = name, store_type = [], location = [],
      store_class = [], pages = [], meta = no_meta, items = its,
      drop_nonalc_wobbler = False, fits_envelope = False\<rparr>"

text \<open>Three stores for the kit grouping: the first has a combination of its own, the
  second and the third share one and list it in different orders.\<close>

definition kit_s1 :: store where
  "kit_s1 = mk_store ''S1'' [mk_item ''Shelf Wobbler'' ''A'' 1, mk_item ''Shelf Wobbler'' ''B'' 2]"

definition kit_s2 :: store where
  "kit_s2 = mk_store ''S2'' [mk_item ''Shelf Wobbler'' ''C'' 1, mk_item ''Shelf Wobbler'' ''D'' 2]"

definition kit_s3 :: store where
  "kit_s3 = mk_store ''S3'' [mk_item ''Shelf Wobbler'' ''D'' 2, mk_item ''Shelf Wobbler'' ''C'' 1]"

definition kit_example :: "store list" where
  "kit_example = [kit_s1, kit_s2, kit_s3]"

section \<open>Invariants\<close>

text \<open>What holds of the items appended by \<open>extract_items_from_pages\<close>, and of its loop
  state: \<open>last_type\<close> is never the empty string.\<close>

definition items_ok :: "item list \<Rightarrow> bool" where
  "items_ok its \<longleftrightarrow> list_all (\<lambda>it. 0 \<le> qty it \<and> item_type it \<noteq> [] \<and> promo it \<noteq> []) its"

definition extract_inv :: "extract_state \<Rightarrow> bool" where
  "extract_inv st \<longleftrightarrow> items_ok (items_acc st) \<and> last_type st \<noteq> Some []"

text \<open>What holds of the page list of a store that \<open>index_stores\<close> returns, of the page
  list of the store still open when the loop is at page \<open>i\<close>, and of the loop state.\<close>

definition pages_ok :: "page list \<Rightarrow> nat list \<Rightarrow> bool" where
  "pages_ok doc q \<longleftrightarrow>
     q \<noteq> [] \<and> sorted_wrt (<) q \<and> header_at doc (hd q)
     \<and> (\<forall>j \<in> set q. j < length doc \<and> \<not> skipped (doc ! j))
     \<and> (\<forall>j \<in> set (tl q). \<not> header_at doc j)
     \<and> (\<forall>j. hd q \<le> j \<and> j \<le> last q \<and> j \<notin> set q \<longrightarrow> skipped (doc ! j))"

definition open_ok :: "page list \<Rightarrow> nat \<Rightarrow> nat list \<Rightarrow> bool" where
  "open_ok doc i q \<longleftrightarrow>
     q \<noteq> [] \<and> i \<le> length doc \<and> hd q < i \<and> header_at doc (hd q)
     \<and> q = filter (\<lambda>j. \<not> skipped (doc ! j)) [hd q ..< i]
     \<and> (\<forall>j. hd q < j \<and> j < i \<longrightarrow> \<not> header_at doc j)"

definition index_inv :: "page list \<Rightarrow> nat \<Rightarrow> index_state \<Rightarrow> bool" where
  "index_inv doc i st \<longleftrightarrow>
     list_all (\<lambda>s. pages_ok doc (pages s)) (stores_acc st)
     \<and> (case current st of None \<Rightarrow> True | Some q \<Rightarrow> open_ok doc i q)"

section \<open>Canonical form\<close>

subsection \<open>Character facts\<close>

lemma is_space_blank: "is_space CHR '' ''"
  by (simp add: is_space_def code_def)

lemma hd_dropWhile_not: "dropWhile P xs = y # ys \<Longrightarrow> \<not> P y"
  using hd_dropWhile [of P xs] by auto

lemma ws_normal_collapse: "ws_normal (collapse_ws x)"
proof (induction x rule: collapse_ws.induct)
  case 1
  show ?case by simp
next
  case (2 c cs)
  show ?case
  proof (cases "is_space c")
    case True
    show ?thesis
    proof (cases "dropWhile is_space cs")
      case Nil
      show ?thesis using True by (simp add: Nil is_space_blank)
    next
      case (Cons y ys)
      then have "\<not> is_space y" by (rule hd_dropWhile_not)
      with True Cons 2 show ?thesis by (cases ys) (auto simp: is_space_blank)
    qed
  next
    case False
    with 2 show ?thesis by (cases "collapse_ws cs") auto
  qed
qed

lemma collapse_ws_fixed: "ws_normal x \<Longrightarrow> collapse_ws x = x"
proof (induction x rule: ws_normal.induct)
  case 1
  show ?case by simp
next
  case (2 c)
  then show ?case by simp
next
  case (3 c d cs)
  then show ?case by auto
qed

lemma ws_normal_tl: "ws_normal (c # cs) \<Longrightarrow> ws_normal cs"
  by (cases cs) auto

lemma ws_normal_dropWhile: "ws_normal x \<Longrightarrow> ws_normal (dropWhile P x)"
  by (induction x) (auto dest: ws_normal_tl)

lemma ws_normal_prefix: "ws_normal (xs @ ys) \<Longrightarrow> ws_normal xs"
proof (induction xs rule: ws_normal.induct)
  case 1
  show ?case by simp
next
  case (2 c)
  then show ?case by (cases ys) auto
next
  case (3 c d cs)
  then show ?case by auto
qed

lemma rev_dropWhile_rev_prefix: "\<exists>zs. xs = rev (dropWhile P (rev xs)) @ zs"
proof -
  have "rev xs = takeWhile P (rev xs) @ dropWhile P (rev xs)" by simp
  then have "xs = rev (takeWhile P (rev xs) @ dropWhile P (rev xs))" by (metis rev_rev_ident)
  then show ?thesis by (metis rev_append)
qed

lemma ws_normal_strip_asterisks: "ws_normal x \<Longrightarrow> ws_normal (strip_asterisks x)"
  unfolding strip_asterisks_def
  by (metis ws_normal_dropWhile ws_normal_prefix rev_dropWhile_rev_prefix)

lemma code_char_of: "code (char_of n) = n mod 256"
  by (simp add: code_def)

lemma code_less: "code c < 256"
  by (simp add: code_def)

lemma is_space_lower_char: "is_space (lower_char c) = is_space c"
  using code_less [of c] by (auto simp: is_space_def lower_char_def code_char_of)

lemma lower_char_idem: "lower_char (lower_char c) = lower_char c"
  using code_less [of c] by (auto simp: lower_char_def code_char_of)

lemma code_inj: "code c = code d \<longleftrightarrow> c = d"
  by (simp add: code_def)

lemma code_lower_char:
  "code (lower_char c) =
     (if (65 \<le> code c \<and> code c \<le> 90) \<or> (192 \<le> code c \<and> code c \<le> 222 \<and> code c \<noteq> 215)
      then code c + 32 else code c)"
  using code_less [of c] by (auto simp: lower_char_def code_char_of)

lemma code_blank: "code CHR '' '' = 32"
  by (simp add: code_def)

lemma code_star: "code CHR ''*'' = 42"
  by (simp add: code_def)

lemma lower_char_eq_blank: "lower_char c = CHR '' '' \<longleftrightarrow> c = CHR '' ''"
  unfolding code_inj [symmetric] code_lower_char code_blank by auto

lemma lower_char_eq_star: "lower_char c = CHR ''*'' \<longleftrightarrow> c = CHR ''*''"
  unfolding code_inj [symmetric] code_lower_char code_star by auto

lemma ws_normal_lower: "ws_normal (lower x) = ws_normal x"
  unfolding lower_def
  by (induction x rule: ws_normal.induct) (auto simp: is_space_lower_char lower_char_eq_blank)

lemma lower_idem: "lower (lower x) = lower x"
  by (simp add: lower_def lower_char_idem)

lemma strip_asterisks_lower: "strip_asterisks (lower x) = lower (strip_asterisks x)"
  unfolding strip_asterisks_def lower_def
  by (simp add: dropWhile_map rev_map comp_def lower_char_eq_star)

lemma dropWhile_idem: "dropWhile P (dropWhile P xs) = dropWhile P xs"
  by (induction xs) auto


lemma trim_ends:
  assumes "rev (dropWhile P (rev (dropWhile P x))) = y" "y \<noteq> []"
  shows "\<not> P (hd y) \<and> \<not> P (last y)"
proof -
  let ?d = "dropWhile P x"
  from assms have ne: "dropWhile P (rev ?d) \<noteq> []" by auto
  then have "\<not> P (hd (dropWhile P (rev ?d)))" by (rule hd_dropWhile)
  with assms ne have l: "\<not> P (last y)" by (auto simp: last_rev)
  from ne have dne: "?d \<noteq> []" by (metis dropWhile.simps(1) rev.simps(1))
  then have hP: "\<not> P (hd ?d)" by (rule hd_dropWhile)
  obtain zs where z: "?d = rev (dropWhile P (rev ?d)) @ zs"
    using rev_dropWhile_rev_prefix by blast
  with assms have "?d = y @ zs" by simp
  with assms(2) have "hd ?d = hd y" by simp
  with hP l show ?thesis by simp
qed

lemma trim_fixed:
  assumes "x = [] \<or> (\<not> P (hd x) \<and> \<not> P (last x))"
  shows "rev (dropWhile P (rev (dropWhile P x))) = x"
proof (cases x)
  case Nil
  then show ?thesis by simp
next
  case (Cons a as)
  with assms have a: "\<not> P a" and l: "\<not> P (last x)" by auto
  from a Cons have d: "dropWhile P x = x" by simp
  from Cons have "rev x \<noteq> []" by simp
  moreover from l have "\<not> P (hd (rev x))" by (simp add: hd_rev)
  ultimately have "dropWhile P (rev x) = rev x" by (cases "rev x") auto
  with d show ?thesis by simp
qed

lemma trim_shorter:
  assumes "x \<noteq> []" "P (hd x) \<or> P (last x)"
  shows "length (rev (dropWhile P (rev (dropWhile P x)))) < length x"
proof (cases "P (hd x)")
  case True
  with assms(1) have "length (dropWhile P x) < length x"
    by (cases x) (auto simp: less_Suc_eq_le length_dropWhile_le)
  moreover have "length (dropWhile P (rev (dropWhile P x))) \<le> length (rev (dropWhile P x))"
    by (rule length_dropWhile_le)
  ultimately show ?thesis by simp
next
  case False
  with assms have l: "P (last x)" by simp
  from False assms(1) have d: "dropWhile P x = x" by (cases x) auto
  from l have "P (hd (rev x))" by (simp add: hd_rev)
  with assms(1) have "length (dropWhile P (rev x)) < length (rev x)"
    by (cases "rev x") (auto simp: less_Suc_eq_le length_dropWhile_le)
  with d show ?thesis by simp
qed

lemma trim_length_le: "length (rev (dropWhile P (rev (dropWhile P x)))) \<le> length x"
proof -
  have "length (dropWhile P (rev (dropWhile P x))) \<le> length (rev (dropWhile P x))"
    by (rule length_dropWhile_le)
  also have "\<dots> \<le> length x" by (simp add: length_dropWhile_le)
  finally show ?thesis by simp
qed

lemma strip_asterisks_idem: "strip_asterisks (strip_asterisks x) = strip_asterisks x"
proof -
  have "strip_asterisks x = [] \<or> (\<not> hd (strip_asterisks x) = CHR ''*'' \<and> \<not> last (strip_asterisks x) = CHR ''*'')"
    using trim_ends [of "\<lambda>c. c = CHR ''*''" x "strip_asterisks x"]
    by (auto simp: strip_asterisks_def)
  then show ?thesis
    using trim_fixed [of "strip_asterisks x" "\<lambda>c. c = CHR ''*''"]
    by (simp add: strip_asterisks_def)
qed

lemma length_collapse_ws: "length (collapse_ws x) \<le> length x"
proof (induction x rule: collapse_ws.induct)
  case 1
  show ?case by simp
next
  case (2 c cs)
  have "length (dropWhile is_space cs) \<le> length cs" by (rule length_dropWhile_le)
  with 2 show ?case by auto
qed

lemma length_canon_le: "length (canon x) \<le> length (strip x)"
proof -
  have "length (strip_asterisks (collapse_ws (strip x))) \<le> length (collapse_ws (strip x))"
    unfolding strip_asterisks_def by (rule trim_length_le)
  also have "\<dots> \<le> length (strip x)" by (rule length_collapse_ws)
  finally show ?thesis by (simp add: canon_def lower_def)
qed

lemma ws_normal_space: "ws_normal x \<Longrightarrow> c \<in> set x \<Longrightarrow> is_space c \<Longrightarrow> c = CHR '' ''"
  by (induction x rule: ws_normal.induct) auto

lemma canon_shape:
  "ws_normal (canon s) \<and> strip_asterisks (canon s) = canon s \<and> lower (canon s) = canon s"
proof (cases "s = []")
  case True
  then show ?thesis by (simp add: canon_def strip_asterisks_def lower_def)
next
  case False
  let ?u = "strip_asterisks (collapse_ws (strip s))"
  have c: "canon s = lower ?u" using False by (simp add: canon_def)
  have "ws_normal ?u" by (simp add: ws_normal_collapse ws_normal_strip_asterisks)
  then have 1: "ws_normal (canon s)" by (simp add: c ws_normal_lower)
  have 2: "strip_asterisks (canon s) = canon s"
    by (simp add: c strip_asterisks_lower strip_asterisks_idem)
  have 3: "lower (canon s) = canon s" by (simp add: c lower_idem)
  from 1 2 3 show ?thesis by simp
qed

lemma canon_canon_iff: "canon (canon s) = canon s \<longleftrightarrow> \<not> edge_space (canon s)"
proof (cases "canon s = []")
  case True
  then show ?thesis by (simp add: canon_def edge_space_def)
next
  case False
  let ?t = "canon s"
  from canon_shape [of s] have n: "ws_normal ?t" and a: "strip_asterisks ?t = ?t"
    and l: "lower ?t = ?t" by simp_all
  show ?thesis
  proof (cases "edge_space ?t")
    case True
    with False have "is_space (hd ?t) \<or> is_space (last ?t)"
      by (auto simp: edge_space_def is_space_blank)
    with False have "length (strip ?t) < length ?t"
      unfolding strip_def by (rule trim_shorter)
    with length_canon_le [of ?t] have "canon ?t \<noteq> ?t" by auto
    with True show ?thesis by simp
  next
    case ne: False
    have "\<not> is_space (hd ?t)"
      using ws_normal_space [OF n, of "hd ?t"] False ne by (auto simp: edge_space_def)
    moreover have "\<not> is_space (last ?t)"
      using ws_normal_space [OF n, of "last ?t"] False ne by (auto simp: edge_space_def)
    ultimately have "strip ?t = ?t"
      unfolding strip_def by (intro trim_fixed) simp
    with n a l False have "canon ?t = ?t" by (simp add: canon_def collapse_ws_fixed)
    with ne show ?thesis by simp
  qed
qed


lemma set_collapse_ws: "set (collapse_ws x) \<subseteq> insert CHR '' '' (set x)"
proof (induction x rule: collapse_ws.induct)
  case 1
  show ?case by simp
next
  case (2 c cs)
  have "set (dropWhile is_space cs) \<subseteq> set cs" by (rule set_dropWhileD [THEN subsetI]) 
  with 2 show ?case by auto
qed

lemma set_trim: "set (rev (dropWhile P (rev (dropWhile P x)))) \<subseteq> set x"
proof -
  have "set (dropWhile P (rev (dropWhile P x))) \<subseteq> set (rev (dropWhile P x))"
    by (rule set_dropWhileD [THEN subsetI])
  also have "\<dots> \<subseteq> set x" using set_dropWhileD [of _ P x] by auto
  finally show ?thesis by simp
qed

lemma collapse_ws_ends:
  assumes "x \<noteq> []" "\<not> is_space (hd x)" "\<not> is_space (last x)"
  shows "collapse_ws x \<noteq> [] \<and> hd (collapse_ws x) = hd x \<and> last (collapse_ws x) = last x"
proof -
  have l: "y \<noteq> [] \<Longrightarrow> \<not> is_space (last y) \<Longrightarrow>
      collapse_ws y \<noteq> [] \<and> last (collapse_ws y) = last y" for y
  proof (induction y rule: collapse_ws.induct)
    case 1
    then show ?case by simp
  next
    case (2 c cs)
    show ?case
    proof (cases "is_space c")
      case True
      with "2.prems"(2) have ne: "cs \<noteq> []" by auto
      with "2.prems"(2) have lc: "\<not> is_space (last cs)" by simp
      from ne have "last cs \<in> set cs" by simp
      with lc have dne: "dropWhile is_space cs \<noteq> []" by auto
      have "cs = takeWhile is_space cs @ dropWhile is_space cs" by simp
      with dne have ld: "last (dropWhile is_space cs) = last cs" by (metis last_appendR)
      with "2.IH"(1) [OF True dne] lc
      have "collapse_ws (dropWhile is_space cs) \<noteq> []
          \<and> last (collapse_ws (dropWhile is_space cs)) = last cs" by simp
      with True ne show ?thesis by simp
    next
      case False
      show ?thesis
      proof (cases "cs = []")
        case True
        with False show ?thesis by simp
      next
        case ne: False
        with "2.prems"(2) have "\<not> is_space (last cs)" by simp
        with "2.IH"(2) [OF False ne] have "collapse_ws cs \<noteq> [] \<and> last (collapse_ws cs) = last cs"
          by simp
        with False ne show ?thesis by simp
      qed
    qed
  qed
  from assms(1,2) have "hd (collapse_ws x) = hd x" by (cases x) auto
  with l [OF assms(1,3)] show ?thesis by simp
qed

lemma canon_no_asterisk:
  assumes "CHR ''*'' \<notin> set s"
  shows "\<not> edge_space (canon s)"
proof (cases "canon s = []")
  case True
  then show ?thesis by (simp add: edge_space_def)
next
  case False
  then have sne: "s \<noteq> []" by (auto simp: canon_def)
  let ?y = "strip s" and ?x = "collapse_ws (strip s)"
  have "set ?x \<subseteq> insert CHR '' '' (set ?y)" by (rule set_collapse_ws)
  moreover have "set ?y \<subseteq> set s" unfolding strip_def by (rule set_trim)
  ultimately have nostar: "CHR ''*'' \<notin> set ?x" using assms by auto
  have "?x = [] \<or> (\<not> hd ?x = CHR ''*'' \<and> \<not> last ?x = CHR ''*'')"
  proof (cases "?x = []")
    case True
    then show ?thesis by simp
  next
    case False
    then have "hd ?x \<in> set ?x" "last ?x \<in> set ?x" by simp_all
    with nostar show ?thesis by metis
  qed
  then have sa: "strip_asterisks ?x = ?x"
    unfolding strip_asterisks_def by (rule trim_fixed)
  with sne have c: "canon s = lower ?x" by (simp add: canon_def)
  with False have xne: "?x \<noteq> []" by (auto simp: lower_def)
  then have yne: "?y \<noteq> []" by auto
  have "\<not> is_space (hd ?y) \<and> \<not> is_space (last ?y)"
    using trim_ends [of is_space s ?y] yne by (simp add: strip_def)
  with yne have "hd ?x = hd ?y \<and> last ?x = last ?y" "\<not> is_space (hd ?y)" "\<not> is_space (last ?y)"
    using collapse_ws_ends [of ?y] by simp_all
  then have "hd ?x \<noteq> CHR '' ''" "last ?x \<noteq> CHR '' ''"
    using is_space_blank by metis+
  with xne have "hd (lower ?x) \<noteq> CHR '' ''" "last (lower ?x) \<noteq> CHR '' ''"
    by (simp_all add: lower_def hd_map last_map lower_char_eq_blank)
  with c show ?thesis by (simp add: edge_space_def)
qed

subsection \<open>Idempotence of the canonical form\<close>

text \<open>
  Claim C5 says that \<open>canon\<close> is idempotent. It is not: \<open>canon\<close> strips whitespace before it
  trims the asterisks, so a space next to a trimmed asterisk stays at the edge of the
  result, and a second pass strips it.
\<close>

theorem canon_idempotent_counterexample: "canon (canon ''* a'') \<noteq> canon ''* a''"
  by (simp add: canon_def strip_def strip_asterisks_def lower_def lower_char_def is_space_def
      code_def)

text \<open>
  Claim C5, amended: \<open>canon (canon s) = canon s\<close> holds exactly when \<open>canon s\<close> neither
  begins nor ends with a space, and that is so for every \<open>s\<close> without an asterisk.
\<close>

theorem canon_idempotent_iff:
  "(canon (canon s) = canon s \<longleftrightarrow> \<not> edge_space (canon s))
   \<and> (CHR ''*'' \<notin> set s \<longrightarrow> canon (canon s) = canon s)"
  using canon_canon_iff [of s] canon_no_asterisk [of s] by blast

text \<open>Both sides of claim C5's amended statement occur.\<close>

theorem canon_idempotent_iff_witness:
  "CHR ''*'' \<notin> set ''Shelf  Wobbler '' \<and> \<not> edge_space (canon ''Shelf  Wobbler '')
   \<and> canon (canon ''Shelf  Wobbler '') = canon ''Shelf  Wobbler ''
   \<and> edge_space (canon ''* a'') \<and> canon (canon ''* a'') \<noteq> canon ''* a''"
proof -
  have a: "CHR ''*'' \<notin> set ''Shelf  Wobbler ''" by simp
  have b: "edge_space (canon ''* a'')"
    by (simp add: edge_space_def canon_def strip_def strip_asterisks_def lower_def
        lower_char_def is_space_def code_def)
  from a b canon_idempotent_iff [of "''Shelf  Wobbler ''"] canon_idempotent_iff [of "''* a''"]
  show ?thesis by blast
qed

section \<open>Header pages: proofs\<close>

lemma after_prefix_iff: "after_prefix p s = Some r \<longleftrightarrow> s = p @ r"
  by (induction p s rule: after_prefix.induct) auto

lemma re_search_iff: "re_search m s \<longleftrightarrow> (\<exists>pre post. s = pre @ post \<and> m post)"
proof (induction s)
  case Nil
  show ?case by simp
next
  case (Cons c cs)
  show ?case
  proof
    assume "re_search m (c # cs)"
    then consider "m (c # cs)" | "re_search m cs" by auto
    then show "\<exists>pre post. c # cs = pre @ post \<and> m post"
    proof cases
      case 1
      then have "c # cs = [] @ (c # cs) \<and> m (c # cs)" by simp
      then show ?thesis by blast
    next
      case 2
      with Cons obtain pre post where "cs = pre @ post" "m post" by auto
      then have "c # cs = (c # pre) @ post \<and> m post" by simp
      then show ?thesis by blast
    qed
  next
    assume "\<exists>pre post. c # cs = pre @ post \<and> m post"
    then obtain pre post where p: "c # cs = pre @ post" "m post" by auto
    show "re_search m (c # cs)"
    proof (cases pre)
      case Nil
      with p have "m (c # cs)" by simp
      then show ?thesis by simp
    next
      case (Cons a pre')
      with p have "cs = pre' @ post" by simp
      with p(2) Cons.IH show ?thesis by auto
    qed
  qed
qed

lemma letter_digits_iff:
  "letter_digits r \<longleftrightarrow>
     (\<exists>l d1 d2 d3 d4 post. r = [l, d1, d2, d3, d4] @ post \<and> is_upper_az l \<and> is_decimal d1
        \<and> is_decimal d2 \<and> is_decimal d3 \<and> is_decimal d4)"
  by (induction r rule: letter_digits.induct) auto

lemma header_match_iff:
  "header_match s \<longleftrightarrow>
     (\<exists>ws l d1 d2 d3 d4 post. s = ''Store:'' @ ws @ [l, d1, d2, d3, d4] @ post \<and> length ws \<le> 1
        \<and> list_all is_space ws \<and> is_upper_az l \<and> is_decimal d1 \<and> is_decimal d2
        \<and> is_decimal d3 \<and> is_decimal d4)"
  (is "?L \<longleftrightarrow> ?R")
proof
  assume ?L
  then obtain r where r: "s = ''Store:'' @ r" and
    d: "(\<exists>c r'. r = c # r' \<and> is_space c \<and> letter_digits r') \<or> letter_digits r"
    by (auto simp: header_match_def after_prefix_iff split: option.splits list.splits)
  from d show ?R
  proof
    assume "\<exists>c r'. r = c # r' \<and> is_space c \<and> letter_digits r'"
    then obtain c r' where c: "r = c # r'" "is_space c" "letter_digits r'" by auto
    from c(3) obtain l d1 d2 d3 d4 post where "r' = [l, d1, d2, d3, d4] @ post" "is_upper_az l"
      "is_decimal d1" "is_decimal d2" "is_decimal d3" "is_decimal d4"
      unfolding letter_digits_iff by auto
    with r c have "s = ''Store:'' @ [c] @ [l, d1, d2, d3, d4] @ post \<and> length [c] \<le> 1
        \<and> list_all is_space [c] \<and> is_upper_az l \<and> is_decimal d1 \<and> is_decimal d2
        \<and> is_decimal d3 \<and> is_decimal d4" by simp
    then show ?R by blast
  next
    assume "letter_digits r"
    then obtain l d1 d2 d3 d4 post where "r = [l, d1, d2, d3, d4] @ post" "is_upper_az l"
      "is_decimal d1" "is_decimal d2" "is_decimal d3" "is_decimal d4"
      unfolding letter_digits_iff by auto
    with r have "s = ''Store:'' @ [] @ [l, d1, d2, d3, d4] @ post \<and> length ([]::string) \<le> 1
        \<and> list_all is_space [] \<and> is_upper_az l \<and> is_decimal d1 \<and> is_decimal d2
        \<and> is_decimal d3 \<and> is_decimal d4" by simp
    then show ?R by blast
  qed
next
  assume ?R
  then obtain ws l d1 d2 d3 d4 post where s: "s = ''Store:'' @ ws @ [l, d1, d2, d3, d4] @ post"
    and w: "length ws \<le> 1" "list_all is_space ws"
    and c: "is_upper_az l" "is_decimal d1" "is_decimal d2" "is_decimal d3" "is_decimal d4"
    by auto
  from c have ld: "letter_digits ([l, d1, d2, d3, d4] @ post)" by simp
  from s have ap: "after_prefix ''Store:'' s = Some (ws @ [l, d1, d2, d3, d4] @ post)"
    by (simp only: after_prefix_iff)
  show ?L
  proof (cases ws)
    case Nil
    with ap ld show ?thesis by (simp add: header_match_def)
  next
    case (Cons a ws')
    with w have "ws = [a]" "is_space a" by auto
    with ap ld show ?thesis by (simp add: header_match_def)
  qed
qed

text \<open>
  Claim C3 says that a page is a header page exactly when its text matches \<open>Store:\<close>, a
  single space, one letter and four digits. The text \<open>Store:A1234\<close> has no space and is
  a header page all the same: the pattern's \<open>\s?\<close> makes the whitespace optional.
\<close>

theorem header_page_counterexample:
  "is_header_page ''Store:A1234'' \<and> \<not> spec_header_page ''Store:A1234''"
  by (simp add: is_header_page_def spec_header_page_def header_match_def is_space_def
      is_upper_az_def is_decimal_def code_def)

text \<open>
  Claim C3, amended: a page is a header page exactly when its text contains \<open>Store:\<close>,
  then at most one whitespace character, then one capital letter \<open>A\<close> to \<open>Z\<close> and four
  decimal digits; anything may come before and behind.
\<close>

theorem header_page_iff:
  "is_header_page txt \<longleftrightarrow>
     (\<exists>pre ws l d1 d2 d3 d4 post.
        txt = pre @ ''Store:'' @ ws @ [l, d1, d2, d3, d4] @ post \<and> length ws \<le> 1
        \<and> list_all is_space ws \<and> is_upper_az l \<and> is_decimal d1 \<and> is_decimal d2
        \<and> is_decimal d3 \<and> is_decimal d4)"
  unfolding is_header_page_def re_search_iff header_match_iff by blast

text \<open>
  Claim C3's amended statement at a header text.
\<close>

theorem header_page_iff_witness:
  "is_header_page ''Page 1 Store: B5678 Class: 10''
   \<and> (\<exists>pre ws l d1 d2 d3 d4 post.
        ''Page 1 Store: B5678 Class: 10'' = pre @ ''Store:'' @ ws @ [l, d1, d2, d3, d4] @ post
        \<and> length ws \<le> 1 \<and> list_all is_space ws \<and> is_upper_az l \<and> is_decimal d1
        \<and> is_decimal d2 \<and> is_decimal d3 \<and> is_decimal d4)"
proof -
  have "is_header_page ''Page 1 Store: B5678 Class: 10''"
    by (simp add: is_header_page_def header_match_def is_space_def is_upper_az_def
        is_decimal_def code_def)
  with header_page_iff [of "''Page 1 Store: B5678 Class: 10''"] show ?thesis by blast
qed

section \<open>Column detection: proofs\<close>

text \<open>
  Claim C4 says that on a page where none of the three header anchors is found,
  \<open>header_bottom\<close> is 0. On such a page the two substituted rectangles reach down to
  \<open>y = 20\<close> and are counted among the found ones, so \<open>header_bottom\<close> is 20.
\<close>

theorem detect_columns_no_anchor_counterexample:
  "search_for (text_page ''x'') ''Sign Type'' = Some []
   \<and> search_for (text_page ''x'') ''Promotion Name'' = Some []
   \<and> search_for (text_page ''x'') ''Qty Ordered'' = Some []
   \<and> header_bottom (detect_columns (text_page ''x'')) \<noteq> 0"
  by (simp add: text_page_def detect_columns_def first_hit_def or_fallback_def rect_truthy_def
      max_or_zero_def)

text \<open>
  Claim C4, amended: on a page where none of the three anchors is found, the boundaries are
  25 and 80 percent of the page width and \<open>header_bottom\<close> is 20, the lower edge of the
  substituted rectangles. \<open>header_bottom\<close> is 0, with the same boundaries, when a search
  raises.
\<close>

theorem detect_columns_no_anchor:
  "(search_for pg ''Sign Type'' = Some [] \<and> search_for pg ''Promotion Name'' = Some []
      \<and> search_for pg ''Qty Ordered'' = Some []
    \<longrightarrow> detect_columns pg =
          \<lparr>x_promo_left = rect_width pg * 0.25, x_qty_left = rect_width pg * 0.80,
           header_bottom = 20\<rparr>)
   \<and> (search_for pg ''Sign Type'' = None \<or> search_for pg ''Promotion Name'' = None
      \<or> search_for pg ''Qty Ordered'' = None
    \<longrightarrow> detect_columns pg =
          \<lparr>x_promo_left = rect_width pg * 0.25, x_qty_left = rect_width pg * 0.80,
           header_bottom = 0\<rparr>)"
  by (auto simp: detect_columns_def first_hit_def or_fallback_def rect_truthy_def
      max_or_zero_def Let_def split: option.splits)

text \<open>
  Claim C4's amended statement on a page 612 wide without anchors.
\<close>

theorem detect_columns_no_anchor_witness:
  "search_for (text_page ''x'') ''Sign Type'' = Some []
   \<and> search_for (text_page ''x'') ''Promotion Name'' = Some []
   \<and> search_for (text_page ''x'') ''Qty Ordered'' = Some []
   \<and> detect_columns (text_page ''x'') =
       \<lparr>x_promo_left = 153, x_qty_left = 489.6, header_bottom = 20\<rparr>"
proof -
  have "search_for (text_page ''x'') ''Sign Type'' = Some []
      \<and> search_for (text_page ''x'') ''Promotion Name'' = Some []
      \<and> search_for (text_page ''x'') ''Qty Ordered'' = Some []"
    by (simp add: text_page_def)
  moreover have "rect_width (text_page ''x'') = 612" by (simp add: text_page_def)
  ultimately show ?thesis using detect_columns_no_anchor [of "text_page ''x''"] by simp
qed

section \<open>Envelope fit: proofs\<close>

lemma canon_A: "canon ''A'' = ''a''" by code_simp
lemma canon_B: "canon ''B'' = ''b''" by code_simp
lemma canon_C: "canon ''C'' = ''c''" by code_simp

lemma types_AB_all:
  assumes "item_type ` set its = {''A'', ''B''}"
  shows "\<forall>it \<in> set its. item_type it = ''A'' \<or> item_type it = ''B''"
proof
  fix it assume "it \<in> set its"
  then have "item_type it \<in> item_type ` set its" by (rule imageI)
  then have "item_type it \<in> {''A'', ''B''}" by (simp only: assms)
  then show "item_type it = ''A'' \<or> item_type it = ''B''" by blast
qed

lemma types_AB_has_B:
  assumes "item_type ` set its = {''A'', ''B''}"
  shows "\<exists>it \<in> set its. item_type it = ''B''"
proof -
  have "''B'' \<in> {''A'', ''B''}" by blast
  then have "''B'' \<in> item_type ` set its" by (simp only: assms)
  then show ?thesis by (auto simp only: image_iff)
qed

lemma compute_envelope_fit_nth:
  assumes "compute_envelope_fit stores fit_cfg = (stores', fits, not_fits)" "i < length stores"
  shows "stores' ! i = set_fit (will_set fit_cfg) (stores ! i)"
    and "length stores' = length stores"
    and "fits = filter fits_envelope stores'"
    and "not_fits = filter (\<lambda>s. \<not> fits_envelope s) stores'"
  using assms by (auto simp: compute_envelope_fit_def Let_def)

lemma set_fit_nonempty:
  "items s \<noteq> [] \<Longrightarrow>
   fits_envelope (set_fit w s) \<longleftrightarrow> (\<forall>it \<in> set (items s). canon (item_type it) \<in> w)"
  by (simp add: set_fit_def list_all_iff)

lemma set_fit_update: "set_fit w s = s\<lparr>fits_envelope := fits_envelope (set_fit w s)\<rparr>"
  by (simp add: set_fit_def)

lemma will_set_ABC:
  "fit_cfg ''will_fit'' = Some [''A'', ''B'', ''C''] \<Longrightarrow> will_set fit_cfg = {''a'', ''b'', ''c''}"
  by (simp add: will_set_def get_or_def canon_A canon_B canon_C)

lemma will_set_A: "fit_cfg ''will_fit'' = Some [''A''] \<Longrightarrow> will_set fit_cfg = {''a''}"
  by (simp add: will_set_def get_or_def canon_A)

text \<open>
  Claim C2: for a store with a non-empty item list, \<open>compute_envelope_fit\<close> sets
  \<open>fits_envelope\<close> to true exactly when the canonical sign type of every item is in the
  canonicalised \<open>will_fit\<close> list; nothing else of the store changes, and the store is
  returned in \<open>fits\<close> or in \<open>not_fits\<close> accordingly. A store with the sign types
  \<open>A\<close> and \<open>B\<close> fits under \<open>will_fit = [A, B, C]\<close> and does not under \<open>will_fit = [A]\<close>.
\<close>

theorem envelope_fit_iff:
  assumes "compute_envelope_fit stores fit_cfg = (stores', fits, not_fits)"
    and "i < length stores" and "items (stores ! i) \<noteq> []"
  shows "(fits_envelope (stores' ! i) \<longleftrightarrow>
            (\<forall>it \<in> set (items (stores ! i)).
               canon (item_type it) \<in> canon ` set (get_or (fit_cfg ''will_fit'') [])))
     \<and> stores' ! i = (stores ! i)\<lparr>fits_envelope := fits_envelope (stores' ! i)\<rparr>
     \<and> (stores' ! i \<in> set fits \<longleftrightarrow> fits_envelope (stores' ! i))
     \<and> (stores' ! i \<in> set not_fits \<longleftrightarrow> \<not> fits_envelope (stores' ! i))
     \<and> (item_type ` set (items (stores ! i)) = {''A'', ''B''} \<longrightarrow>
          (fit_cfg ''will_fit'' = Some [''A'', ''B'', ''C''] \<longrightarrow> fits_envelope (stores' ! i))
          \<and> (fit_cfg ''will_fit'' = Some [''A''] \<longrightarrow> \<not> fits_envelope (stores' ! i)))"
proof -
  let ?s = "stores ! i" and ?w = "will_set fit_cfg"
  note n = compute_envelope_fit_nth [OF assms(1,2)]
  have fe: "fits_envelope (stores' ! i) \<longleftrightarrow> (\<forall>it \<in> set (items ?s). canon (item_type it) \<in> ?w)"
    unfolding n(1) using assms(3) by (rule set_fit_nonempty)
  have fe': "fits_envelope (stores' ! i) \<longleftrightarrow>
      (\<forall>it \<in> set (items ?s). canon (item_type it) \<in> canon ` set (get_or (fit_cfg ''will_fit'') []))"
    using fe by (simp only: will_set_def)
  have up: "stores' ! i = ?s\<lparr>fits_envelope := fits_envelope (stores' ! i)\<rparr>"
    unfolding n(1) by (rule set_fit_update)
  from assms(2) n(2) have mem: "stores' ! i \<in> set stores'" by simp
  have inf: "stores' ! i \<in> set fits \<longleftrightarrow> fits_envelope (stores' ! i)"
    using mem by (simp add: n(3))
  have innf: "stores' ! i \<in> set not_fits \<longleftrightarrow> \<not> fits_envelope (stores' ! i)"
    using mem by (simp add: n(4))
  have ex: "fits_envelope (stores' ! i)"
    if t: "item_type ` set (items ?s) = {''A'', ''B''}"
      and c: "fit_cfg ''will_fit'' = Some [''A'', ''B'', ''C'']"
  proof -
    have "canon (item_type it) \<in> ?w" if "it \<in> set (items ?s)" for it
    proof -
      from types_AB_all [OF t] that have "item_type it = ''A'' \<or> item_type it = ''B''" by blast
      then show ?thesis by (auto simp: will_set_ABC [of fit_cfg, OF c] canon_A canon_B)
    qed
    then show ?thesis unfolding fe by blast
  qed
  have nex: "\<not> fits_envelope (stores' ! i)"
    if t: "item_type ` set (items ?s) = {''A'', ''B''}" and c: "fit_cfg ''will_fit'' = Some [''A'']"
  proof -
    from types_AB_has_B [OF t] obtain it where it: "it \<in> set (items ?s)" "item_type it = ''B''"
      by blast
    have "canon (item_type it) \<notin> ?w" by (simp add: it(2) will_set_A [of fit_cfg, OF c] canon_B)
    with it(1) show ?thesis unfolding fe by blast
  qed
  from fe' up inf innf ex nex show ?thesis by blast
qed

text \<open>
  Claim C2 at a store with one item of type \<open>A\<close> and one of type \<open>B\<close>.
\<close>

theorem envelope_fit_iff_witness:
  "fits_envelope
     (fst (compute_envelope_fit [mk_store ''S'' [mk_item ''A'' ''p'' 1, mk_item ''B'' ''q'' 2]]
             (Map.empty(''will_fit'' \<mapsto> [''A'', ''B'', ''C''])))  ! 0)
   \<and> \<not> fits_envelope
     (fst (compute_envelope_fit [mk_store ''S'' [mk_item ''A'' ''p'' 1, mk_item ''B'' ''q'' 2]]
             (Map.empty(''will_fit'' \<mapsto> [''A''])))  ! 0)"
proof -
  let ?st = "[mk_store ''S'' [mk_item ''A'' ''p'' 1, mk_item ''B'' ''q'' 2]]"
  let ?c1 = "Map.empty(''will_fit'' \<mapsto> [''A'', ''B'', ''C''])"
  let ?c2 = "Map.empty(''will_fit'' \<mapsto> [''A''])"
  have i: "(0::nat) < length ?st" by simp
  have ne: "items (?st ! 0) \<noteq> []" by (simp add: mk_store_def)
  have ty: "item_type ` set (items (?st ! 0)) = {''A'', ''B''}"
    by (simp add: mk_store_def mk_item_def)
  have e1: "compute_envelope_fit ?st ?c1 =
      (fst (compute_envelope_fit ?st ?c1), fst (snd (compute_envelope_fit ?st ?c1)),
       snd (snd (compute_envelope_fit ?st ?c1)))" by simp
  have e2: "compute_envelope_fit ?st ?c2 =
      (fst (compute_envelope_fit ?st ?c2), fst (snd (compute_envelope_fit ?st ?c2)),
       snd (snd (compute_envelope_fit ?st ?c2)))" by simp
  have w1: "?c1 ''will_fit'' = Some [''A'', ''B'', ''C'']" by simp
  have w2: "?c2 ''will_fit'' = Some [''A'']" by simp
  from envelope_fit_iff [OF e1 i ne] ty w1 envelope_fit_iff [OF e2 i ne] w2
  show ?thesis by blast
qed

text \<open>
  Claim C10: a store with an empty item list gets \<open>fits_envelope = False\<close> and is returned
  in \<open>not_fits\<close>, although every one of its (no) items has its sign type in the list.
\<close>

theorem envelope_fit_empty_items:
  assumes "compute_envelope_fit stores fit_cfg = (stores', fits, not_fits)"
    and "i < length stores" and "items (stores ! i) = []"
  shows "\<not> fits_envelope (stores' ! i) \<and> stores' ! i \<in> set not_fits \<and> stores' ! i \<notin> set fits
     \<and> (\<forall>it \<in> set (items (stores ! i)).
           canon (item_type it) \<in> canon ` set (get_or (fit_cfg ''will_fit'') []))"
proof -
  note n = compute_envelope_fit_nth [OF assms(1,2)]
  have f: "\<not> fits_envelope (stores' ! i)" using assms(3) by (simp add: n(1) set_fit_def)
  from assms(2) n(2) have "stores' ! i \<in> set stores'" by simp
  with f n(3,4) assms(3) show ?thesis by simp
qed

text \<open>
  Claim C10 at a store without items.
\<close>

theorem envelope_fit_empty_items_witness:
  "items ([mk_store ''S'' []] ! 0) = []
   \<and> \<not> fits_envelope
       (fst (compute_envelope_fit [mk_store ''S'' []] (Map.empty(''will_fit'' \<mapsto> [''A'']))) ! 0)"
proof -
  let ?st = "[mk_store ''S'' []]" and ?c = "Map.empty(''will_fit'' \<mapsto> [''A''])"
  have i: "(0::nat) < length ?st" by simp
  have e: "items (?st ! 0) = []" by (simp add: mk_store_def)
  have p: "compute_envelope_fit ?st ?c =
      (fst (compute_envelope_fit ?st ?c), fst (snd (compute_envelope_fit ?st ?c)),
       snd (snd (compute_envelope_fit ?st ?c)))" by simp
  from envelope_fit_empty_items [OF p i e] e show ?thesis by blast
qed

section \<open>Item extraction: proofs\<close>

lemma py_int_nonneg: "py_int s = Inr n \<Longrightarrow> 0 \<le> n"
  by (auto simp: py_int_def split: if_splits)

lemma extract_row_inv:
  assumes "extract_inv st" "extract_row r st = Inr st'"
  shows "extract_inv st'"
proof -
  let ?t = "strip (type_text r)"
  let ?st1 = "if ?t \<noteq> [] then st\<lparr>last_type := Some ?t\<rparr> else st"
  have i1: "extract_inv ?st1" using assms(1) by (simp add: extract_inv_def)
  from assms(2) have
    "st' = ?st1\<lparr>last_type := None, promo_buf := []\<rparr>
     \<or> (\<exists>fp n. fp \<noteq> [] \<and> py_int (strip (qty_text r)) = Inr n \<and> last_type ?st1 \<noteq> None \<and>
           st' = ?st1\<lparr>items_acc := items_acc ?st1 @
                   [\<lparr>item_type = get_or (last_type ?st1) [], promo = fp, qty = n\<rparr>],
                 promo_buf := []\<rparr>)
     \<or> (\<exists>b. st' = ?st1\<lparr>promo_buf := b\<rparr>)
     \<or> st' = ?st1"
    unfolding extract_row_def Let_def
    by (auto split: if_splits sum.splits)
  then show ?thesis
  proof (elim disjE exE conjE)
    assume "st' = ?st1\<lparr>last_type := None, promo_buf := []\<rparr>"
    with i1 show ?thesis by (simp add: extract_inv_def)
  next
    fix fp n
    assume a: "fp \<noteq> []" "py_int (strip (qty_text r)) = Inr n" "last_type ?st1 \<noteq> None"
      and s: "st' = ?st1\<lparr>items_acc := items_acc ?st1 @
                   [\<lparr>item_type = get_or (last_type ?st1) [], promo = fp, qty = n\<rparr>],
                 promo_buf := []\<rparr>"
    from a(2) have n: "0 \<le> n" by (rule py_int_nonneg)
    from a(3) obtain t where t: "last_type ?st1 = Some t" by blast
    with i1 have "t \<noteq> []" by (auto simp: extract_inv_def)
    with t have "get_or (last_type ?st1) [] \<noteq> []" by (simp add: get_or_def)
    with i1 n a(1) show ?thesis unfolding s by (simp add: extract_inv_def items_ok_def)
  next
    fix b assume "st' = ?st1\<lparr>promo_buf := b\<rparr>"
    with i1 show ?thesis by (simp add: extract_inv_def)
  next
    assume "st' = ?st1"
    with i1 show ?thesis by simp
  qed
qed

lemma extract_rows_inv:
  "extract_inv st \<Longrightarrow>
   (case extract_rows rs st of Inl (e, its) \<Rightarrow> items_ok its | Inr st' \<Rightarrow> extract_inv st')"
proof (induction rs arbitrary: st)
  case Nil
  then show ?case by simp
next
  case (Cons r rs)
  show ?case
  proof (cases "extract_row r st")
    case (Inl e)
    with Cons.prems show ?thesis by (simp add: extract_inv_def)
  next
    case (Inr st')
    with Cons.prems have "extract_inv st'" by (simp add: extract_row_inv)
    from Cons.IH [OF this] Inr show ?thesis by simp
  qed
qed

lemma extract_pages_inv:
  "extract_inv st \<Longrightarrow>
   (case extract_pages doc ps st of Inl (e, its) \<Rightarrow> items_ok its | Inr st' \<Rightarrow> extract_inv st')"
proof (induction ps arbitrary: st)
  case Nil
  then show ?case by simp
next
  case (Cons p ps)
  show ?case
  proof (cases "p < length doc")
    case False
    with Cons.prems show ?thesis by (simp add: extract_inv_def)
  next
    case True
    let ?rs = "iter_rows (doc ! p) (header_bottom (detect_columns (doc ! p)) + 2)
                 (rect_y1 (doc ! p) - 36)"
    show ?thesis
    proof (cases "extract_rows ?rs st")
      case (Inl x)
      with extract_rows_inv [OF Cons.prems, of ?rs] True show ?thesis
        by (simp add: Let_def)
    next
      case (Inr st')
      with extract_rows_inv [OF Cons.prems, of ?rs] have "extract_inv st'" by simp
      from Cons.IH [OF this] Inr True show ?thesis by (simp add: Let_def)
    qed
  qed
qed

lemma extract_items_ok: "items_ok (extract_items_from_pages doc pgs)"
proof -
  have "extract_inv \<lparr>items_acc = [], last_type = None, promo_buf = []\<rparr>"
    by (simp add: extract_inv_def items_ok_def)
  from extract_pages_inv [OF this, of doc pgs] show ?thesis
    by (auto simp: extract_items_from_pages_def extract_inv_def split: sum.splits)
qed

text \<open>
  Claim C8 says that no item with a zero quantity is ever appended. The test on the
  quantity text is \<open>qt.isdigit()\<close>, which \<open>0\<close> passes: the row below yields an item with
  \<open>qty = 0\<close>.
\<close>

theorem extract_items_qty_counterexample:
  "extract_items_from_pages [rows_page ''x'' [mk_row ''Shelf Wobbler'' ''Widget Promo'' ''0'']] [0]
     = [\<lparr>item_type = ''Shelf Wobbler'', promo = ''Widget Promo'', qty = 0\<rparr>]"
  by code_simp

text \<open>
  Claim C8, amended: every item that \<open>extract_items_from_pages\<close> returns has a quantity
  that is not negative (zero occurs), a non-empty type and a non-empty promo.
\<close>

theorem extract_items_qty_nonneg:
  "\<forall>it \<in> set (extract_items_from_pages doc pgs). 0 \<le> qty it \<and> item_type it \<noteq> [] \<and> promo it \<noteq> []"
  using extract_items_ok [of doc pgs] by (simp add: items_ok_def list_all_iff)

text \<open>
  Claim C8's amended statement on a promo that continues over two rows.
\<close>

theorem extract_items_qty_nonneg_witness:
  "extract_items_from_pages [rows_page ''x'' [mk_row ''A'' ''b'' [], mk_row [] ''c'' ''12'']] [0]
     = [\<lparr>item_type = ''A'', promo = ''b c'', qty = 12\<rparr>]
   \<and> list_all (\<lambda>it. 0 \<le> qty it \<and> item_type it \<noteq> [] \<and> promo it \<noteq> [])
       (extract_items_from_pages
          [rows_page ''x'' [mk_row ''A'' ''b'' [], mk_row [] ''c'' ''12'']] [0])"
proof -
  have "extract_items_from_pages
          [rows_page ''x'' [mk_row ''A'' ''b'' [], mk_row [] ''c'' ''12'']] [0]
        = [\<lparr>item_type = ''A'', promo = ''b c'', qty = 12\<rparr>]"
    by code_simp
  moreover have "list_all (\<lambda>it. 0 \<le> qty it \<and> item_type it \<noteq> [] \<and> promo it \<noteq> [])
       (extract_items_from_pages
          [rows_page ''x'' [mk_row ''A'' ''b'' [], mk_row [] ''c'' ''12'']] [0])"
    unfolding list_all_iff
    by (rule extract_items_qty_nonneg
         [of "[rows_page ''x'' [mk_row ''A'' ''b'' [], mk_row [] ''c'' ''12'']]" "[0]"])
  ultimately show ?thesis by (rule conjI)
qed

section \<open>Main processing: proofs\<close>

text \<open>
  Claim C9: when the list of unique sign types over the stores with items is empty, the
  run shows the message \<open>No sign types found in this PDF.\<close> and ends there, whatever the
  dialog and the renderer would do: the output document is not opened, no page is put
  into it and nothing is saved.
\<close>

theorem process_no_sign_types:
  assumes "unique_sign_types (filter (\<lambda>s. items s \<noteq> []) (stores_of doc)) = []"
  shows "process_pdf_sorted_with_kits_and_envelopes (Some doc) ask render
           = [ShowError ''Envelope Fit'' ''No sign types found in this PDF.'']
     \<and> OpenOutput \<notin> set (process_pdf_sorted_with_kits_and_envelopes (Some doc) ask render)
     \<and> SaveOutput \<notin> set (process_pdf_sorted_with_kits_and_envelopes (Some doc) ask render)
     \<and> (\<forall>n. OutputPages n \<notin> set (process_pdf_sorted_with_kits_and_envelopes (Some doc) ask render))"
proof -
  have "process_pdf_sorted_with_kits_and_envelopes (Some doc) ask render
          = [ShowError ''Envelope Fit'' ''No sign types found in this PDF.'']"
    using assms by (simp add: process_pdf_sorted_with_kits_and_envelopes_def Let_def)
  then show ?thesis by simp
qed

text \<open>
  Claim C9 on a document of one header page without rows.
\<close>

theorem process_no_sign_types_witness:
  "unique_sign_types (filter (\<lambda>s. items s \<noteq> []) (stores_of [text_page ''Store: A1234''])) = []
   \<and> process_pdf_sorted_with_kits_and_envelopes (Some [text_page ''Store: A1234''])
         (\<lambda>_. Map.empty) (\<lambda>_ _ _ _. (1, True))
       = [ShowError ''Envelope Fit'' ''No sign types found in this PDF.'']"
proof -
  have "map items (stores_of [text_page ''Store: A1234'']) = [[]]"
    by code_simp
  then have "filter (\<lambda>s. items s \<noteq> []) (stores_of [text_page ''Store: A1234'']) = []"
    by (auto simp: filter_empty_conv in_set_conv_nth dest!: arg_cong [where f = set])
  then have u: "unique_sign_types
      (filter (\<lambda>s. items s \<noteq> []) (stores_of [text_page ''Store: A1234''])) = []"
    by (simp add: unique_sign_types_def)
  from process_no_sign_types [OF u, of "\<lambda>_. Map.empty" "\<lambda>_ _ _ _. (1, True)"] u
  show ?thesis by blast
qed

section \<open>Store indexing: proofs\<close>

lemma open_ok_pages_ok:
  assumes "open_ok doc i q"
  shows "pages_ok doc q"
proof -
  let ?P = "\<lambda>j. \<not> skipped (doc ! j)"
  from assms have ne: "q \<noteq> []" and le: "i \<le> length doc" and h: "header_at doc (hd q)"
    and q: "q = filter ?P [hd q ..< i]"
    and nh: "\<forall>j. hd q < j \<and> j < i \<longrightarrow> \<not> header_at doc j"
    by (simp_all add: open_ok_def)
  have "sorted_wrt (<) (filter ?P [hd q ..< i])"
    by (rule sorted_wrt_filter) (simp add: sorted_wrt_upt)
  with q have so: "sorted_wrt (<) q" by simp
  have mem: "j < i \<and> ?P j" if "j \<in> set q" for j
  proof -
    from that q have "j \<in> set (filter ?P [hd q ..< i])" by simp
    then show ?thesis by simp
  qed
  have a: "\<forall>j \<in> set q. j < length doc \<and> \<not> skipped (doc ! j)"
    using mem le by fastforce
  from ne have qc: "q = hd q # tl q" by simp
  with so have "sorted_wrt (<) (hd q # tl q)" by simp
  then have gt: "\<forall>j \<in> set (tl q). hd q < j" by simp
  have b: "\<forall>j \<in> set (tl q). \<not> header_at doc j"
  proof
    fix j assume j: "j \<in> set (tl q)"
    with gt have "hd q < j" by blast
    moreover from j ne have "j \<in> set q" by (metis list.set_sel(2))
    then have "j < i" using mem by blast
    ultimately show "\<not> header_at doc j" using nh by blast
  qed
  have c: "skipped (doc ! j)" if "hd q \<le> j" "j \<le> last q" "j \<notin> set q" for j
  proof -
    from ne have "last q \<in> set q" by simp
    then have "last q < i" using mem by blast
    with that(1,2) have "j \<in> set [hd q ..< i]" by simp
    moreover from that(3) q have "j \<notin> set (filter ?P [hd q ..< i])" by simp
    ultimately show ?thesis by simp
  qed
  from ne so h a b c show ?thesis unfolding pages_ok_def by blast
qed

lemma open_ok_skip:
  assumes "open_ok doc i q" "i < length doc" "skipped (doc ! i)"
  shows "open_ok doc (Suc i) q"
proof -
  let ?P = "\<lambda>j. \<not> skipped (doc ! j)"
  from assms(1) have ne: "q \<noteq> []" and hl: "hd q < i" and h: "header_at doc (hd q)"
    and q: "q = filter ?P [hd q ..< i]"
    and nh: "\<forall>j. hd q < j \<and> j < i \<longrightarrow> \<not> header_at doc j"
    by (simp_all add: open_ok_def)
  from hl have "[hd q ..< Suc i] = [hd q ..< i] @ [i]" by simp
  then have "filter ?P [hd q ..< Suc i] = filter ?P [hd q ..< i]" using assms(3) by simp
  with q have q': "q = filter ?P [hd q ..< Suc i]" by simp
  from assms(3) have "\<not> header_at doc i"
    by (auto simp: header_at_def skipped_def split: option.splits)
  with nh have nh': "\<forall>j. hd q < j \<and> j < Suc i \<longrightarrow> \<not> header_at doc j"
    by (metis less_Suc_eq)
  from ne assms(2) hl h q' nh' show ?thesis unfolding open_ok_def by simp
qed

lemma open_ok_extend:
  assumes "open_ok doc i q" "i < length doc" "\<not> skipped (doc ! i)" "\<not> header_at doc i"
  shows "open_ok doc (Suc i) (q @ [i])"
proof -
  let ?P = "\<lambda>j. \<not> skipped (doc ! j)"
  from assms(1) have ne: "q \<noteq> []" and hl: "hd q < i" and h: "header_at doc (hd q)"
    and q: "q = filter ?P [hd q ..< i]"
    and nh: "\<forall>j. hd q < j \<and> j < i \<longrightarrow> \<not> header_at doc j"
    by (simp_all add: open_ok_def)
  from ne have hd: "hd (q @ [i]) = hd q" by simp
  from hl have "[hd q ..< Suc i] = [hd q ..< i] @ [i]" by simp
  then have "filter ?P [hd q ..< Suc i] = filter ?P [hd q ..< i] @ [i]" using assms(3) by simp
  with q have q': "q @ [i] = filter ?P [hd q ..< Suc i]" by simp
  from nh assms(4) have nh': "\<forall>j. hd q < j \<and> j < Suc i \<longrightarrow> \<not> header_at doc j"
    by (metis less_Suc_eq)
  have ne': "q @ [i] \<noteq> []" by simp
  from hl have hl': "hd q < Suc i" by simp
  from assms(2) have le': "Suc i \<le> length doc" by simp
  show ?thesis unfolding open_ok_def hd using ne' le' hl' h q' nh' by blast
qed

lemma open_ok_start:
  assumes "i < length doc" "header_at doc i" "\<not> skipped (doc ! i)"
  shows "open_ok doc (Suc i) [i]"
proof -
  have "[i] = filter (\<lambda>j. \<not> skipped (doc ! j)) [hd [i] ..< Suc i]" using assms(3) by simp
  moreover have "\<forall>j. hd [i] < j \<and> j < Suc i \<longrightarrow> \<not> header_at doc j" by auto
  moreover have "[i] \<noteq> []" "Suc i \<le> length doc" "hd [i] < Suc i" "header_at doc (hd [i])"
    using assms by simp_all
  ultimately show ?thesis unfolding open_ok_def by blast
qed

lemma pages_close_store: "pages (close_store u st q) = q"
  by (simp add: close_store_def Let_def)

lemma index_page_inv:
  assumes "index_inv doc i st" "i < length doc"
  shows "index_inv doc (Suc i) (index_page i (doc ! i) st)"
proof (cases "get_text (doc ! i)")
  case None
  then have sk: "skipped (doc ! i)" by (simp add: skipped_def)
  from None have "index_page i (doc ! i) st = st" by (simp add: index_page_def)
  with assms sk show ?thesis
    by (auto simp: index_inv_def open_ok_skip split: option.splits)
next
  case (Some tx)
  show ?thesis
  proof (cases "strip tx = []")
    case True
    with Some have sk: "skipped (doc ! i)" by (simp add: skipped_def)
    from Some True have "index_page i (doc ! i) st = st" by (simp add: index_page_def)
    with assms sk show ?thesis
      by (auto simp: index_inv_def open_ok_skip split: option.splits)
  next
    case False
    with Some have nsk: "\<not> skipped (doc ! i)" by (simp add: skipped_def)
    show ?thesis
    proof (cases "is_header_page tx")
      case True
      with Some False assms(2) have ha: "header_at doc i" by (simp add: header_at_def)
      have st': "index_page i (doc ! i) st =
          \<lparr>stores_acc =
             (case current st of
                None \<Rightarrow> stores_acc st
              | Some pgs \<Rightarrow> stores_acc st @ [close_store (''UNKNOWN_'' @ show_nat i) st pgs]),
           current = Some [i], accum = tx @ '' '', cur_meta = extract_store_info tx\<rparr>"
        using Some False True by (simp add: index_page_def)
      have "open_ok doc (Suc i) [i]" using assms(2) ha nsk by (rule open_ok_start)
      moreover have "list_all (\<lambda>s. pages_ok doc (pages s))
          (case current st of
             None \<Rightarrow> stores_acc st
           | Some pgs \<Rightarrow> stores_acc st @ [close_store (''UNKNOWN_'' @ show_nat i) st pgs])"
        using assms(1)
        by (auto simp: index_inv_def pages_close_store open_ok_pages_ok split: option.splits)
      ultimately show ?thesis unfolding st' index_inv_def by simp
    next
      case nh: False
      with Some have nha: "\<not> header_at doc i" by (simp add: header_at_def)
      have st': "index_page i (doc ! i) st =
          st\<lparr>accum := accum st @ tx @ '' '',
             current := map_option (\<lambda>pgs. pgs @ [i]) (current st)\<rparr>"
        using Some False nh by (simp add: index_page_def)
      show ?thesis unfolding st' using assms nsk nha
        by (auto simp: index_inv_def open_ok_extend split: option.splits)
    qed
  qed
qed

lemma index_loop_inv:
  assumes "index_inv doc i st" "drop i doc = ps" "i \<le> length doc"
  shows "index_inv doc (length doc) (index_loop i ps st)"
  using assms
proof (induction ps arbitrary: i st)
  case Nil
  then have "i = length doc" by simp
  with Nil show ?case by simp
next
  case (Cons pg rest)
  from Cons.prems(2) have il: "i < length doc" by (metis drop_all leI list.distinct(1))
  from Cons.prems(2) il have pg: "doc ! i = pg" by (metis nth_via_drop)
  from Cons.prems(2) have rest: "drop (Suc i) doc = rest" by (metis drop_Suc list.sel(3) tl_drop)
  from Cons.prems(1) il have "index_inv doc (Suc i) (index_page i (doc ! i) st)"
    by (rule index_page_inv)
  with pg have "index_inv doc (Suc i) (index_page i pg st)" by simp
  from Cons.IH [OF this rest] il show ?case by simp
qed

lemma index_stores_pages_ok:
  assumes "s \<in> set (index_stores doc)"
  shows "pages_ok doc (pages s)"
proof -
  let ?init = "\<lparr>stores_acc = [], current = None, accum = [], cur_meta = no_meta\<rparr>"
  let ?st = "index_loop 0 doc ?init"
  have "index_inv doc 0 ?init" by (simp add: index_inv_def)
  then have inv: "index_inv doc (length doc) ?st"
    using index_loop_inv [of doc 0 ?init doc] by simp
  show ?thesis
  proof (cases "current ?st")
    case None
    with assms have "s \<in> set (stores_acc ?st)" by (simp add: index_stores_def Let_def)
    with inv show ?thesis by (auto simp: index_inv_def list_all_iff)
  next
    case (Some q)
    with assms have "s \<in> set (stores_acc ?st) \<or> s = close_store ''UNKNOWN_END'' ?st q"
      by (auto simp: index_stores_def Let_def)
    moreover from inv Some have "open_ok doc (length doc) q" by (simp add: index_inv_def)
    then have "pages_ok doc q" by (rule open_ok_pages_ok)
    ultimately show ?thesis using inv
      by (auto simp: index_inv_def list_all_iff pages_close_store)
  qed
qed

lemma strict_sorted_hd_le:
  assumes "sorted_wrt (<) q" "j \<in> set q"
  shows "hd q \<le> (j::nat)"
proof (cases q)
  case Nil
  with assms(2) show ?thesis by simp
next
  case (Cons x xs)
  with assms show ?thesis by auto
qed

lemma strict_sorted_gapless:
  fixes q :: "nat list"
  assumes "sorted_wrt (<) q" "q \<noteq> []" "\<forall>j. hd q \<le> j \<and> j \<le> last q \<longrightarrow> j \<in> set q"
  shows "q = [hd q ..< hd q + length q]"
  using assms
proof (induction q)
  case Nil
  then show ?case by simp
next
  case (Cons x xs)
  show ?case
  proof (cases "xs = []")
    case True
    then show ?thesis by simp
  next
    case False
    from Cons.prems(1) have gt: "\<forall>y \<in> set xs. x < y" and so: "sorted_wrt (<) xs" by simp_all
    from False have hx: "hd xs \<in> set xs" and lx: "last xs \<in> set xs" by simp_all
    from gt hx have xh: "x < hd xs" by blast
    from so lx have hl: "hd xs \<le> last xs" by (rule strict_sorted_hd_le)
    from False have last: "last (x # xs) = last xs" by simp
    have all: "j \<in> set (x # xs)" if "x \<le> j" "j \<le> last xs" for j
      using Cons.prems(3) that last by simp
    from xh hl have "Suc x \<in> set (x # xs)" by (intro all) simp_all
    then have "Suc x \<in> set xs" by simp
    with so have "hd xs \<le> Suc x" by (rule strict_sorted_hd_le)
    with xh have h: "hd xs = Suc x" by simp
    have "\<forall>j. hd xs \<le> j \<and> j \<le> last xs \<longrightarrow> j \<in> set xs"
    proof (intro allI impI)
      fix j assume j: "hd xs \<le> j \<and> j \<le> last xs"
      with xh have "x \<le> j" "j \<le> last xs" "j \<noteq> x" by simp_all
      with all [of j] show "j \<in> set xs" by simp
    qed
    from Cons.IH [OF so False this] have "xs = [Suc x ..< Suc x + length xs]" by (simp only: h)
    then have "x # xs = x # [Suc x ..< Suc x + length xs]" by simp
    also have "\<dots> = [x ..< Suc x + length xs]"
      by (rule upt_conv_Cons [symmetric]) simp
    also have "Suc x + length xs = hd (x # xs) + length (x # xs)" by simp
    finally have "x # xs = [x ..< hd (x # xs) + length (x # xs)]" .
    moreover have "hd (x # xs) = x" by simp
    ultimately show ?thesis by (simp only:)
  qed
qed

lemma pages_ok_contiguous:
  assumes "pages_ok doc q" "\<forall>pg \<in> set doc. \<not> skipped pg"
  shows "contiguous_run q"
proof -
  from assms(1) have ne: "q \<noteq> []" and so: "sorted_wrt (<) q"
    and a: "\<forall>j \<in> set q. j < length doc"
    and c: "\<forall>j. hd q \<le> j \<and> j \<le> last q \<and> j \<notin> set q \<longrightarrow> skipped (doc ! j)"
    by (simp_all add: pages_ok_def)
  from ne have lq: "last q \<in> set q" by simp
  with a have ll: "last q < length doc" by blast
  have "\<forall>j. hd q \<le> j \<and> j \<le> last q \<longrightarrow> j \<in> set q"
  proof (intro allI impI)
    fix j assume j: "hd q \<le> j \<and> j \<le> last q"
    show "j \<in> set q"
    proof (rule ccontr)
      assume "j \<notin> set q"
      with j c have "skipped (doc ! j)" by blast
      moreover from j ll have "doc ! j \<in> set doc" by simp
      ultimately show False using assms(2) by blast
    qed
  qed
  with so ne have "q = [hd q ..< hd q + length q]" by (rule strict_sorted_gapless)
  then show ?thesis by (simp only: contiguous_run_def)
qed

text \<open>
  Claim C7 says that the pages of every store are a contiguous run. A blank page between
  two pages of a store is passed over by \<open>if not text.strip(): continue\<close> and is left out
  of the store: here the store has the pages 0 and 2.
\<close>

theorem index_stores_contiguous_counterexample:
  "map pages (index_stores [text_page ''Store: A1234'', text_page '' '', text_page ''more''])
     = [[0, 2]]
   \<and> \<not> contiguous_run [0, 2]"
proof -
  have "map pages (index_stores [text_page ''Store: A1234'', text_page '' '', text_page ''more''])
      = [[0, 2]]"
    by code_simp
  moreover have "\<not> contiguous_run [0, 2]" by code_simp
  ultimately show ?thesis by simp
qed

text \<open>
  Claim C7, amended: the page list of every store that \<open>index_stores\<close> returns is not
  empty and strictly increasing; it begins at a header page and holds no other header
  page, so every page of a store has a header page at or before it and the pages before
  the first header page belong to no store; it holds no page that is passed over (blank,
  or its text cannot be extracted), and every index between its first and its last page
  that is missing from it is such a page. When no page of the document is passed over,
  the page list is a contiguous run.
\<close>

theorem index_stores_pages:
  assumes "s \<in> set (index_stores doc)"
  shows "pages s \<noteq> [] \<and> sorted_wrt (<) (pages s) \<and> header_at doc (hd (pages s))
     \<and> (\<forall>j \<in> set (pages s). j < length doc \<and> \<not> skipped (doc ! j)
            \<and> (\<exists>h \<le> j. header_at doc h))
     \<and> (\<forall>j \<in> set (tl (pages s)). \<not> header_at doc j)
     \<and> (\<forall>j. hd (pages s) \<le> j \<and> j \<le> last (pages s) \<and> j \<notin> set (pages s)
            \<longrightarrow> skipped (doc ! j))
     \<and> ((\<forall>pg \<in> set doc. \<not> skipped pg) \<longrightarrow> contiguous_run (pages s))"
proof -
  from assms have ok: "pages_ok doc (pages s)" by (rule index_stores_pages_ok)
  then have c: "(\<forall>pg \<in> set doc. \<not> skipped pg) \<longrightarrow> contiguous_run (pages s)"
    using pages_ok_contiguous by blast
  from ok have so: "sorted_wrt (<) (pages s)" and h: "header_at doc (hd (pages s))"
    by (simp_all add: pages_ok_def)
  have "\<exists>h \<le> j. header_at doc h" if "j \<in> set (pages s)" for j
    using strict_sorted_hd_le [OF so that] h by blast
  with ok c show ?thesis unfolding pages_ok_def by blast
qed

text \<open>
  Claim C7's amended statement on a document with a page before the first header page.
\<close>

theorem index_stores_pages_witness:
  "map pages (index_stores [text_page ''junk'', text_page ''Store: A1234'', text_page ''more''])
     = [[1, 2]]
   \<and> list_all (\<lambda>s. sorted_wrt (<) (pages s) \<and> contiguous_run (pages s))
       (index_stores [text_page ''junk'', text_page ''Store: A1234'', text_page ''more''])"
proof -
  let ?doc = "[text_page ''junk'', text_page ''Store: A1234'', text_page ''more'']"
  have p: "map pages (index_stores ?doc) = [[1, 2]]" by code_simp
  have n: "\<forall>pg \<in> set ?doc. \<not> skipped pg"
    by (simp add: text_page_def skipped_def strip_def is_space_def code_def)
  have "sorted_wrt (<) (pages s) \<and> contiguous_run (pages s)"
    if "s \<in> set (index_stores ?doc)" for s
    using index_stores_pages [OF that] n by blast
  then have "list_all (\<lambda>s. sorted_wrt (<) (pages s) \<and> contiguous_run (pages s))
      (index_stores ?doc)"
    unfolding list_all_iff by blast
  with p show ?thesis by (rule conjI)
qed

section \<open>Wobbler kit grouping: proofs\<close>

lemma fold_snoc: "fold f (xs @ [x]) a = f x (fold f xs a)"
  by simp

lemma wob_item_snd:
  "snd (fold wob_item its (rep, w)) =
     w @ map (\<lambda>it. (canon (promo it), qty it))
           (filter (\<lambda>it. canon (item_type it) = canon ''Shelf Wobbler''
                         \<and> canon (promo it) \<notin> PREDETERMINED_WOBBLERS_CANON) its)"
proof (induction its arbitrary: rep w)
  case Nil
  show ?case by simp
next
  case (Cons it its)
  obtain rep' w' where st: "wob_item it (rep, w) = (rep', w')" by (cases "wob_item it (rep, w)")
  then have w': "w' = w @ map (\<lambda>it. (canon (promo it), qty it))
       (filter (\<lambda>it. canon (item_type it) = canon ''Shelf Wobbler''
                     \<and> canon (promo it) \<notin> PREDETERMINED_WOBBLERS_CANON) [it])"
    by (auto simp: wob_item_def TYPE_SHELF_WOBBLER_CANON_def is_predetermined_wobbler_def Let_def
        split: if_splits)
  have "snd (fold wob_item (it # its) (rep, w)) = snd (fold wob_item its (rep', w'))"
    by (simp add: st)
  also have "\<dots> = w' @ map (\<lambda>it. (canon (promo it), qty it))
           (filter (\<lambda>it. canon (item_type it) = canon ''Shelf Wobbler''
                         \<and> canon (promo it) \<notin> PREDETERMINED_WOBBLERS_CANON) its)"
    by (rule Cons.IH)
  finally show ?case unfolding w' by simp
qed

lemma wob_store_pairs: "snd (fold wob_item (items s) (rep, [])) = qualifying_pairs s"
  by (simp add: wob_item_snd qualifying_pairs_def)

text \<open>rep_text maps a canonical promo to a spelling of it, and knows the promos of \<open>ps\<close>.\<close>

lemma setdefault_cases:
  "setdefault m k v k' = (if k' = k \<and> m k = None then Some v else m k')"
  by (auto simp: setdefault_def split: option.splits)

lemma wob_item_rep:
  assumes "\<forall>p t. rep p = Some t \<longrightarrow> canon t = p"
  shows "(\<forall>p t. fst (fold wob_item its (rep, w)) p = Some t \<longrightarrow> canon t = p)
       \<and> (\<forall>p. rep p \<noteq> None \<longrightarrow> fst (fold wob_item its (rep, w)) p \<noteq> None)
       \<and> (\<forall>pq \<in> set (snd (fold wob_item its (rep, w))). pq \<in> set w
             \<or> fst (fold wob_item its (rep, w)) (fst pq) \<noteq> None)"
  using assms
proof (induction its arbitrary: rep w)
  case Nil
  then show ?case by simp
next
  case (Cons it its)
  obtain rep' w' where st: "wob_item it (rep, w) = (rep', w')" by (cases "wob_item it (rep, w)")
  then have c: "(rep' = rep \<and> w' = w)
      \<or> (rep' = setdefault rep (canon (promo it)) (promo it) \<and> w' = w @ [(canon (promo it), qty it)])"
    by (auto simp: wob_item_def Let_def split: if_splits)
  have r1: "\<forall>p t. rep' p = Some t \<longrightarrow> canon t = p"
    using c Cons.prems by (auto simp: setdefault_cases split: if_splits)
  have r2: "\<forall>p. rep p \<noteq> None \<longrightarrow> rep' p \<noteq> None"
    using c by (auto simp: setdefault_cases)
  have r3: "\<forall>pq \<in> set w'. pq \<in> set w \<or> rep' (fst pq) \<noteq> None"
    using c by (auto simp: setdefault_cases split: if_splits)
  note ih = Cons.IH [OF r1, of w']
  have f: "fold wob_item (it # its) (rep, w) = fold wob_item its (rep', w')" by (simp add: st)
  show ?case unfolding f
  proof (intro conjI)
    show "\<forall>p t. fst (fold wob_item its (rep', w')) p = Some t \<longrightarrow> canon t = p"
      using ih by blast
    show "\<forall>p. rep p \<noteq> None \<longrightarrow> fst (fold wob_item its (rep', w')) p \<noteq> None"
      using ih r2 by blast
    show "\<forall>pq \<in> set (snd (fold wob_item its (rep', w'))). pq \<in> set w
             \<or> fst (fold wob_item its (rep', w')) (fst pq) \<noteq> None"
      using ih r3 by blast
  qed
qed

lemma first_seen_snoc:
  "first_seen (xs @ [x]) = (if x \<in> set xs then first_seen xs else first_seen xs @ [x])"
  by (simp add: first_seen_def)

lemma set_first_seen: "set (first_seen xs) = set xs"
  by (simp add: first_seen_def)

lemma distinct_first_seen: "distinct (first_seen xs)"
  by (simp add: first_seen_def)

lemma combos_append_map:
  assumes "distinct keys"
  shows "combos_append k0 v (map (\<lambda>k. (k, f k)) keys) =
     (if k0 \<in> set keys then map (\<lambda>k. (k, if k = k0 then f k @ [v] else f k)) keys
      else map (\<lambda>k. (k, f k)) keys @ [(k0, [v])])"
  using assms
proof (induction keys)
  case Nil
  show ?case by simp
next
  case (Cons k keys)
  show ?case
  proof (cases "k = k0")
    case True
    with Cons.prems have "k0 \<notin> set keys" by simp
    then have "map (\<lambda>k. (k, if k = k0 then f k @ [v] else f k)) keys = map (\<lambda>k. (k, f k)) keys"
      by (intro map_cong) auto
    with True show ?thesis by simp
  next
    case False
    with Cons show ?thesis by simp
  qed
qed

lemma group_members_snoc:
  "group_members (stores @ [s]) k =
     group_members stores k @ (if qualifies s \<and> sort (qualifying_pairs s) = k then [s] else [])"
  by (simp add: group_members_def)

lemma signatures_seen_snoc:
  "signatures_seen (stores @ [s]) =
     (if qualifies s \<and> sort (qualifying_pairs s) \<notin> set (signatures_seen stores)
      then signatures_seen stores @ [sort (qualifying_pairs s)] else signatures_seen stores)"
  by (simp add: signatures_seen_def first_seen_snoc set_first_seen)

lemma set_signatures_seen:
  "set (signatures_seen stores) = (\<lambda>s. sort (qualifying_pairs s)) ` {s \<in> set stores. qualifies s}"
  by (auto simp: signatures_seen_def set_first_seen)

lemma group_members_unseen:
  "k \<notin> set (signatures_seen stores) \<Longrightarrow> group_members stores k = []"
  by (auto simp: set_signatures_seen group_members_def filter_empty_conv)

lemma wob_store_eq:
  "wob_store s (rep, cs) =
     (fst (fold wob_item (items s) (rep, [])),
      if qualifies s then combos_append (sort (qualifying_pairs s)) (store_id s, store_name s) cs
      else cs)"
proof -
  obtain rep' w where f: "fold wob_item (items s) (rep, []) = (rep', w)"
    by (cases "fold wob_item (items s) (rep, [])")
  with wob_store_pairs [of s rep] have w: "w = qualifying_pairs s" by simp
  from f w have "fold wob_item (items s) (rep, []) = (rep', qualifying_pairs s)" by simp
  then show ?thesis by (auto simp: wob_store_def qualifies_def)
qed

lemma combos_characterised:
  "snd (fold wob_store stores (Map.empty, [])) =
     map (\<lambda>k. (k, map (\<lambda>s. (store_id s, store_name s)) (group_members stores k)))
       (signatures_seen stores)"
proof (induction stores rule: rev_induct)
  case Nil
  show ?case by (simp add: signatures_seen_def first_seen_def)
next
  case (snoc s stores)
  let ?idn = "\<lambda>s. (store_id s, store_name s)"
  let ?f = "\<lambda>k. map ?idn (group_members stores k)"
  obtain rep cs where st: "fold wob_store stores (Map.empty, []) = (rep, cs)"
    by (cases "fold wob_store stores (Map.empty, [])")
  with snoc have cs: "cs = map (\<lambda>k. (k, ?f k)) (signatures_seen stores)" by simp
  have d: "distinct (signatures_seen stores)"
    by (simp add: signatures_seen_def distinct_first_seen)
  show ?case
  proof (cases "qualifies s")
    case False
    then show ?thesis
      by (simp add: st wob_store_eq cs signatures_seen_snoc group_members_snoc)
  next
    case True
    let ?k0 = "sort (qualifying_pairs s)"
    have step: "snd (fold wob_store (stores @ [s]) (Map.empty, [])) =
        combos_append ?k0 (?idn s) (map (\<lambda>k. (k, ?f k)) (signatures_seen stores))"
      using True by (simp add: st wob_store_eq cs)
    show ?thesis
    proof (cases "?k0 \<in> set (signatures_seen stores)")
      case seen: True
      have "combos_append ?k0 (?idn s) (map (\<lambda>k. (k, ?f k)) (signatures_seen stores)) =
          map (\<lambda>k. (k, if k = ?k0 then ?f k @ [?idn s] else ?f k)) (signatures_seen stores)"
        using seen by (simp add: combos_append_map [OF d])
      also have "\<dots> = map (\<lambda>k. (k, map ?idn (group_members (stores @ [s]) k)))
          (signatures_seen (stores @ [s]))"
        using True seen by (auto simp: signatures_seen_snoc group_members_snoc)
      finally show ?thesis using step by simp
    next
      case unseen: False
      then have e: "group_members stores ?k0 = []" by (rule group_members_unseen)
      have "combos_append ?k0 (?idn s) (map (\<lambda>k. (k, ?f k)) (signatures_seen stores)) =
          map (\<lambda>k. (k, ?f k)) (signatures_seen stores) @ [(?k0, [?idn s])]"
        using unseen by (simp add: combos_append_map [OF d])
      also have "\<dots> = map (\<lambda>k. (k, map ?idn (group_members (stores @ [s]) k)))
          (signatures_seen (stores @ [s]))"
        using True unseen e by (auto simp: signatures_seen_snoc group_members_snoc)
      finally show ?thesis using step by simp
    qed
  qed
qed

lemma rep_text_characterised:
  "(\<forall>p t. fst (fold wob_store stores (Map.empty, [])) p = Some t \<longrightarrow> canon t = p)
   \<and> (\<forall>s \<in> set stores. \<forall>pq \<in> set (qualifying_pairs s).
         fst (fold wob_store stores (Map.empty, [])) (fst pq) \<noteq> None)"
proof (induction stores rule: rev_induct)
  case Nil
  show ?case by simp
next
  case (snoc s stores)
  obtain rep cs where st: "fold wob_store stores (Map.empty, []) = (rep, cs)"
    by (cases "fold wob_store stores (Map.empty, [])")
  with snoc have r: "\<forall>p t. rep p = Some t \<longrightarrow> canon t = p"
    and cov: "\<forall>s \<in> set stores. \<forall>pq \<in> set (qualifying_pairs s). rep (fst pq) \<noteq> None"
    by simp_all
  let ?rep' = "fst (fold wob_item (items s) (rep, []))"
  have f: "fst (fold wob_store (stores @ [s]) (Map.empty, [])) = ?rep'"
    by (simp add: st wob_store_eq)
  note w = wob_item_rep [OF r, of "items s" "[]"]
  from w have a: "\<forall>p t. ?rep' p = Some t \<longrightarrow> canon t = p" by blast
  from w have b: "\<forall>p. rep p \<noteq> None \<longrightarrow> ?rep' p \<noteq> None" by blast
  from w have c: "\<forall>pq \<in> set (qualifying_pairs s). ?rep' (fst pq) \<noteq> None"
    by (simp add: wob_store_pairs)
  from cov b have cov': "\<forall>s \<in> set stores. \<forall>pq \<in> set (qualifying_pairs s). ?rep' (fst pq) \<noteq> None"
    by blast
  show ?case unfolding f using a c cov' by simp
qed

lemma items_disp_ok:
  assumes "\<forall>pq \<in> set k. \<exists>t. rep (fst pq) = Some t \<and> canon t = fst pq"
  shows "\<exists>ds. items_disp rep k = Inr ds \<and> map (\<lambda>d. (canon (kit_promo d), kit_qty d)) ds = k"
  using assms
proof (induction k)
  case Nil
  show ?case by simp
next
  case (Cons pq k)
  obtain p q where pq: "pq = (p, q)" by (cases pq)
  with Cons.prems obtain t where t: "rep p = Some t" "canon t = p" by auto
  from Cons.prems have "\<forall>pq \<in> set k. \<exists>t. rep (fst pq) = Some t \<and> canon t = fst pq" by simp
  with Cons.IH obtain ds where ds: "items_disp rep k = Inr ds"
    "map (\<lambda>d. (canon (kit_promo d), kit_qty d)) ds = k" by blast
  show ?case
    by (rule exI [of _ "\<lparr>kit_promo = t, kit_qty = q\<rparr> # ds"]) (simp add: pq t ds)
qed

lemma build_kits_ok:
  assumes "\<forall>kl \<in> set cs. \<forall>pq \<in> set (fst kl). \<exists>t. rep (fst pq) = Some t \<and> canon t = fst pq"
  shows "\<exists>ks. build_kits rep m idx cs = Inr ks
     \<and> map kit_name ks = map show_nat [idx ..< idx + length ks]
     \<and> map (\<lambda>k. (kit_signature k, store_ids k, kit_stores k, store_count k)) ks =
         map (\<lambda>kl. (fst kl, map fst (snd kl), sort (map snd (snd kl)), int (length (snd kl))))
           (filter (\<lambda>kl. m \<le> int (length (snd kl))) cs)"
  using assms
proof (induction cs arbitrary: idx)
  case Nil
  show ?case by simp
next
  case (Cons kl cs)
  obtain key store_list where kl: "kl = (key, store_list)" by (cases kl)
  from Cons.prems
  have rest: "\<forall>kl \<in> set cs. \<forall>pq \<in> set (fst kl). \<exists>t. rep (fst pq) = Some t \<and> canon t = fst pq"
    by simp
  show ?case
  proof (cases "int (length store_list) < m")
    case True
    from Cons.IH [OF rest, of idx] obtain ks where ks: "build_kits rep m idx cs = Inr ks"
      "map kit_name ks = map show_nat [idx ..< idx + length ks]"
      "map (\<lambda>k. (kit_signature k, store_ids k, kit_stores k, store_count k)) ks =
         map (\<lambda>kl. (fst kl, map fst (snd kl), sort (map snd (snd kl)), int (length (snd kl))))
           (filter (\<lambda>kl. m \<le> int (length (snd kl))) cs)" by blast
    from True ks show ?thesis by (simp add: kl)
  next
    case False
    from Cons.prems kl
    have "\<forall>pq \<in> set key. \<exists>t. rep (fst pq) = Some t \<and> canon t = fst pq" by simp
    from items_disp_ok [OF this] obtain ds where ds: "items_disp rep key = Inr ds"
      "map (\<lambda>d. (canon (kit_promo d), kit_qty d)) ds = key" by blast
    from Cons.IH [OF rest, of "Suc idx"] obtain ks where ks:
      "build_kits rep m (Suc idx) cs = Inr ks"
      "map kit_name ks = map show_nat [Suc idx ..< Suc idx + length ks]"
      "map (\<lambda>k. (kit_signature k, store_ids k, kit_stores k, store_count k)) ks =
         map (\<lambda>kl. (fst kl, map fst (snd kl), sort (map snd (snd kl)), int (length (snd kl))))
           (filter (\<lambda>kl. m \<le> int (length (snd kl))) cs)" by blast
    let ?k = "\<lparr>kit_name = show_nat idx, kit_items = ds, kit_stores = sort (map snd store_list),
        store_ids = map fst store_list, store_count = int (length store_list)\<rparr>"
    have b: "build_kits rep m idx (kl # cs) = Inr (?k # ks)"
      using False by (simp add: kl ds(1) ks(1))
    have "idx < Suc idx + length ks" by simp
    then have "[idx ..< Suc idx + length ks] = idx # [Suc idx ..< Suc idx + length ks]"
      by (rule upt_conv_Cons)
    moreover have "idx + length (?k # ks) = Suc idx + length ks" by simp
    ultimately have "[idx ..< idx + length (?k # ks)] = idx # [Suc idx ..< Suc idx + length ks]"
      by (simp only:)
    then have "map show_nat [idx ..< idx + length (?k # ks)] =
        show_nat idx # map show_nat [Suc idx ..< Suc idx + length ks]"
      by (simp only: list.map)
    moreover have "map kit_name (?k # ks) = show_nat idx # map kit_name ks"
      by (simp del: show_nat.simps)
    ultimately have n: "map kit_name (?k # ks) = map show_nat [idx ..< idx + length (?k # ks)]"
      using ks(2) by (simp only:)
    have sg: "kit_signature ?k = key" by (simp add: kit_signature_def ds(2))
    have t: "map (\<lambda>k. (kit_signature k, store_ids k, kit_stores k, store_count k)) (?k # ks) =
         map (\<lambda>kl. (fst kl, map fst (snd kl), sort (map snd (snd kl)), int (length (snd kl))))
           (filter (\<lambda>kl. m \<le> int (length (snd kl))) (kl # cs))"
      using False sg ks(3) by (simp add: kl)
    from b n t show ?thesis by blast
  qed
qed

lemma retained_combos:
  "filter (\<lambda>kl. m \<le> int (length (snd kl)))
     (map (\<lambda>k. (k, map (\<lambda>s. (store_id s, store_name s)) (group_members stores k)))
        (signatures_seen stores)) =
   map (\<lambda>k. (k, map (\<lambda>s. (store_id s, store_name s)) (group_members stores k)))
     (retained stores m)"
  by (simp add: retained_def filter_map comp_def)

lemma labelled_kits_ok:
  "\<exists>ks. labelled_kits stores m = Inr ks
     \<and> map kit_name ks = map show_nat [1 ..< Suc (length ks)]
     \<and> map kit_signature ks = retained stores m
     \<and> (\<forall>k \<in> set ks.
           store_ids k = map store_id (group_members stores (kit_signature k))
         \<and> kit_stores k = sort (map store_name (group_members stores (kit_signature k)))
         \<and> store_count k = int (length (group_members stores (kit_signature k))))"
proof -
  let ?idn = "\<lambda>s. (store_id s, store_name s)"
  obtain rep cs where st: "fold wob_store stores (Map.empty, []) = (rep, cs)"
    by (cases "fold wob_store stores (Map.empty, [])")
  from combos_characterised [of stores] st
  have cs: "cs = map (\<lambda>k. (k, map ?idn (group_members stores k))) (signatures_seen stores)"
    by simp
  from rep_text_characterised [of stores] st
  have r: "\<forall>p t. rep p = Some t \<longrightarrow> canon t = p"
    and cov: "\<forall>s \<in> set stores. \<forall>pq \<in> set (qualifying_pairs s). rep (fst pq) \<noteq> None"
    by simp_all
  have "\<forall>kl \<in> set cs. \<forall>pq \<in> set (fst kl). \<exists>t. rep (fst pq) = Some t \<and> canon t = fst pq"
  proof (intro ballI)
    fix kl pq assume kl: "kl \<in> set cs" and pq: "pq \<in> set (fst kl)"
    from kl cs have "fst kl \<in> set (signatures_seen stores)" by auto
    then obtain s where s: "s \<in> set stores" "fst kl = sort (qualifying_pairs s)"
      by (auto simp: set_signatures_seen)
    with pq have "pq \<in> set (qualifying_pairs s)" by simp
    with cov s(1) have "rep (fst pq) \<noteq> None" by blast
    then obtain t where "rep (fst pq) = Some t" by blast
    with r show "\<exists>t. rep (fst pq) = Some t \<and> canon t = fst pq" by blast
  qed
  from build_kits_ok [OF this, of m 1] obtain ks where ks: "build_kits rep m 1 cs = Inr ks"
    "map kit_name ks = map show_nat [1 ..< 1 + length ks]"
    "map (\<lambda>k. (kit_signature k, store_ids k, kit_stores k, store_count k)) ks =
       map (\<lambda>kl. (fst kl, map fst (snd kl), sort (map snd (snd kl)), int (length (snd kl))))
         (filter (\<lambda>kl. m \<le> int (length (snd kl))) cs)" by blast
  let ?g = "\<lambda>k. (k, map store_id (group_members stores k),
      sort (map store_name (group_members stores k)), int (length (group_members stores k)))"
  from ks(3) have tup: "map (\<lambda>k. (kit_signature k, store_ids k, kit_stores k, store_count k)) ks
      = map ?g (retained stores m)"
    unfolding cs retained_combos by (simp add: comp_def)
  have l: "labelled_kits stores m = Inr ks" using ks(1) by (simp add: labelled_kits_def st)
  from ks(2) have n: "map kit_name ks = map show_nat [1 ..< Suc (length ks)]" by simp
  from tup have "map fst (map (\<lambda>k. (kit_signature k, store_ids k, kit_stores k, store_count k)) ks)
      = map fst (map ?g (retained stores m))" by simp
  then have sg: "map kit_signature ks = retained stores m" by (simp add: comp_def)
  have f: "store_ids k = map store_id (group_members stores (kit_signature k))
         \<and> kit_stores k = sort (map store_name (group_members stores (kit_signature k)))
         \<and> store_count k = int (length (group_members stores (kit_signature k)))"
    if "k \<in> set ks" for k
  proof -
    from that have "(kit_signature k, store_ids k, kit_stores k, store_count k)
        \<in> set (map (\<lambda>k. (kit_signature k, store_ids k, kit_stores k, store_count k)) ks)"
      by (simp only: set_map image_iff) blast
    then have "(kit_signature k, store_ids k, kit_stores k, store_count k)
        \<in> set (map ?g (retained stores m))" by (simp only: tup)
    then show ?thesis by auto
  qed
  from l n sg f show ?thesis by blast
qed

lemma group_wobbler_kits_characterised:
  "\<exists>ks. group_wobbler_kits stores m = (sort_kits ks, kit_lookup (sort_kits ks))
     \<and> map kit_name ks = map show_nat [1 ..< Suc (length ks)]
     \<and> map kit_signature ks = retained stores m
     \<and> (\<forall>k \<in> set ks.
           store_ids k = map store_id (group_members stores (kit_signature k))
         \<and> kit_stores k = sort (map store_name (group_members stores (kit_signature k)))
         \<and> store_count k = int (length (group_members stores (kit_signature k))))"
proof -
  from labelled_kits_ok [of stores m] obtain ks where ks: "labelled_kits stores m = Inr ks"
    "map kit_name ks = map show_nat [1 ..< Suc (length ks)]"
    "map kit_signature ks = retained stores m"
    "\<forall>k \<in> set ks.
           store_ids k = map store_id (group_members stores (kit_signature k))
         \<and> kit_stores k = sort (map store_name (group_members stores (kit_signature k)))
         \<and> store_count k = int (length (group_members stores (kit_signature k)))"
    by blast
  from ks(1) have "group_wobbler_kits stores m = (sort_kits ks, kit_lookup (sort_kits ks))"
    by (simp add: group_wobbler_kits_def)
  with ks(2,3,4) show ?thesis by blast
qed

lemma distinct_retained: "distinct (retained stores m)"
  by (simp add: retained_def signatures_seen_def distinct_first_seen)

lemma count_in_distinct:
  "distinct xs \<Longrightarrow> length (filter (\<lambda>x. x = a) xs) = (if a \<in> set xs then 1 else 0)"
  by (induction xs) auto

lemma length_filter_sort_kits:
  "length (filter P (sort_kits ks)) = length (filter P ks)"
proof -
  have "mset (filter P (sort_kits ks)) = mset (filter P ks)"
    by (simp add: sort_kits_def)
  then show ?thesis by (rule mset_eq_length)
qed

lemma kits_with_signature:
  assumes "group_wobbler_kits stores m = (sort_kits ks, lk)"
    "map kit_signature ks = retained stores m"
  shows "length (filter (\<lambda>k. kit_signature k = sig) (fst (group_wobbler_kits stores m))) =
     (if sig \<in> set (signatures_seen stores) \<and> m \<le> int (length (group_members stores sig))
      then 1 else 0)"
proof -
  have "length (filter (\<lambda>k. kit_signature k = sig) (fst (group_wobbler_kits stores m))) =
      length (filter (\<lambda>k. kit_signature k = sig) ks)"
    by (simp add: assms(1) length_filter_sort_kits)
  also have "\<dots> = length (filter (\<lambda>x. x = sig) (map kit_signature ks))"
    by (simp add: filter_map comp_def)
  also have "\<dots> = (if sig \<in> set (retained stores m) then 1 else 0)"
    unfolding assms(2) using distinct_retained by (rule count_in_distinct)
  also have "\<dots> = (if sig \<in> set (signatures_seen stores)
                        \<and> m \<le> int (length (group_members stores sig)) then 1 else 0)"
    by (simp add: retained_def)
  finally show ?thesis .
qed

lemma fold_upd_same:
  "fold (\<lambda>sid m'. m'(sid \<mapsto> n)) ids m = (\<lambda>x. if x \<in> set ids then Some n else m x)"
  by (induction ids arbitrary: m) (auto simp: fun_eq_iff)

lemma kit_lookup_snoc:
  "kit_lookup (ks @ [k]) x =
     (if x \<in> set (store_ids k) then Some (kit_name k) else kit_lookup ks x)"
  by (simp add: kit_lookup_def fold_upd_same)

lemma kit_lookup_same:
  assumes "\<forall>k \<in> set ks. a \<in> set (store_ids k) \<longleftrightarrow> b \<in> set (store_ids k)"
  shows "kit_lookup ks a = kit_lookup ks b"
  using assms
proof (induction ks rule: rev_induct)
  case Nil
  show ?case by (simp add: kit_lookup_def)
next
  case (snoc k ks)
  then show ?case by (simp add: kit_lookup_snoc)
qed

lemma member_by_id:
  assumes "inj_on store_id (set stores)" "s \<in> set stores"
  shows "store_id s \<in> set (map store_id (group_members stores sig))
     \<longleftrightarrow> s \<in> set (group_members stores sig)"
proof
  assume "store_id s \<in> set (map store_id (group_members stores sig))"
  then obtain s' where s': "s' \<in> set (group_members stores sig)" "store_id s' = store_id s"
    by auto
  from s'(1) have "s' \<in> set stores" by (simp add: group_members_def)
  with assms s'(2) have "s' = s" by (simp add: inj_on_def)
  with s'(1) show "s \<in> set (group_members stores sig)" by simp
next
  assume "s \<in> set (group_members stores sig)"
  then show "store_id s \<in> set (map store_id (group_members stores sig))" by simp
qed


text \<open>
  Claim C1: let two stores of the list have the same multiset of qualifying
  (canonical promo, qty) pairs, at least two of them, in whatever order. Then their
  signatures are equal and both are in the group of that signature; every kit that
  \<open>group_wobbler_kits\<close> returns for that signature lists the whole group, both stores
  among it, by id and by name; and there is exactly one such kit when the group has at
  least \<open>min_stores\<close> members and none otherwise. With \<open>min_stores = 10\<close> a group of
  exactly 9 stores yields no kit and a group of exactly 10 yields one. When the store ids
  are distinct, \<open>kit_by_store_id\<close> gives both stores the same answer.
\<close>

theorem kit_grouping_same_kit:
  assumes "s1 \<in> set stores" and "s2 \<in> set stores"
    and "2 \<le> length (qualifying_pairs s1)"
    and "mset (qualifying_pairs s1) = mset (qualifying_pairs s2)"
  shows "let sig = sort (qualifying_pairs s1); grp = group_members stores sig in
     sort (qualifying_pairs s2) = sig \<and> s1 \<in> set grp \<and> s2 \<in> set grp
     \<and> (\<forall>k \<in> set (fst (group_wobbler_kits stores m)). kit_signature k = sig \<longrightarrow>
           store_ids k = map store_id grp \<and> kit_stores k = sort (map store_name grp)
         \<and> store_count k = int (length grp)
         \<and> store_id s1 \<in> set (store_ids k) \<and> store_id s2 \<in> set (store_ids k)
         \<and> store_name s1 \<in> set (kit_stores k) \<and> store_name s2 \<in> set (kit_stores k))
     \<and> length (filter (\<lambda>k. kit_signature k = sig) (fst (group_wobbler_kits stores m))) =
           (if m \<le> int (length grp) then 1 else 0)
     \<and> (length grp = 9 \<longrightarrow>
           filter (\<lambda>k. kit_signature k = sig) (fst (group_wobbler_kits stores 10)) = [])
     \<and> (length grp = 10 \<longrightarrow>
           length (filter (\<lambda>k. kit_signature k = sig) (fst (group_wobbler_kits stores 10))) = 1)
     \<and> (inj_on store_id (set stores) \<longrightarrow>
           snd (group_wobbler_kits stores m) (store_id s1)
             = snd (group_wobbler_kits stores m) (store_id s2))"
proof -
  let ?sig = "sort (qualifying_pairs s1)"
  let ?grp = "group_members stores ?sig"
  have "mset (sort (qualifying_pairs s1)) = mset (qualifying_pairs s2)"
    using assms(4) by simp
  then have "sort (qualifying_pairs s2) = sort (qualifying_pairs s1)"
    by (rule properties_for_sort) simp
  then have e: "sort (qualifying_pairs s2) = ?sig" .
  from assms(4) have "length (qualifying_pairs s1) = length (qualifying_pairs s2)"
    by (rule mset_eq_length)
  with assms(3) have q2: "qualifies s2" and q1: "qualifies s1" by (simp_all add: qualifies_def)
  from assms(1) q1 have g1: "s1 \<in> set ?grp" by (simp add: group_members_def)
  from assms(2) q2 e have g2: "s2 \<in> set ?grp" by (simp add: group_members_def)
  from assms(1) q1 have seen: "?sig \<in> set (signatures_seen stores)"
    by (auto simp: set_signatures_seen)
  have kits: "\<forall>k \<in> set (fst (group_wobbler_kits stores m)). kit_signature k = ?sig \<longrightarrow>
           store_ids k = map store_id ?grp \<and> kit_stores k = sort (map store_name ?grp)
         \<and> store_count k = int (length ?grp)
         \<and> store_id s1 \<in> set (store_ids k) \<and> store_id s2 \<in> set (store_ids k)
         \<and> store_name s1 \<in> set (kit_stores k) \<and> store_name s2 \<in> set (kit_stores k)"
  proof (intro ballI impI)
    fix k assume k: "k \<in> set (fst (group_wobbler_kits stores m))" and sg: "kit_signature k = ?sig"
    from group_wobbler_kits_characterised [of stores m] obtain ks
      where ks: "group_wobbler_kits stores m = (sort_kits ks, kit_lookup (sort_kits ks))"
        and f: "\<forall>k \<in> set ks.
           store_ids k = map store_id (group_members stores (kit_signature k))
         \<and> kit_stores k = sort (map store_name (group_members stores (kit_signature k)))
         \<and> store_count k = int (length (group_members stores (kit_signature k)))"
      by blast
    from k ks have "k \<in> set ks" by (simp add: sort_kits_def)
    with f sg have p: "store_ids k = map store_id ?grp"
      "kit_stores k = sort (map store_name ?grp)" "store_count k = int (length ?grp)"
      by simp_all
    from g1 g2 have "store_id s1 \<in> set (map store_id ?grp)" "store_id s2 \<in> set (map store_id ?grp)"
      "store_name s1 \<in> set (sort (map store_name ?grp))"
      "store_name s2 \<in> set (sort (map store_name ?grp))"
      by simp_all
    with p show "store_ids k = map store_id ?grp \<and> kit_stores k = sort (map store_name ?grp)
         \<and> store_count k = int (length ?grp)
         \<and> store_id s1 \<in> set (store_ids k) \<and> store_id s2 \<in> set (store_ids k)
         \<and> store_name s1 \<in> set (kit_stores k) \<and> store_name s2 \<in> set (kit_stores k)"
      by simp
  qed
  have cnt: "length (filter (\<lambda>k. kit_signature k = ?sig) (fst (group_wobbler_kits stores n))) =
           (if n \<le> int (length ?grp) then 1 else 0)" for n
  proof -
    from group_wobbler_kits_characterised [of stores n] obtain ks
      where "group_wobbler_kits stores n = (sort_kits ks, kit_lookup (sort_kits ks))"
        "map kit_signature ks = retained stores n"
      by blast
    from kits_with_signature [OF this, of ?sig] seen show ?thesis by simp
  qed
  have nine: "length ?grp = 9 \<longrightarrow>
      filter (\<lambda>k. kit_signature k = ?sig) (fst (group_wobbler_kits stores 10)) = []"
    using cnt [of 10] by auto
  have ten: "length ?grp = 10 \<longrightarrow>
      length (filter (\<lambda>k. kit_signature k = ?sig) (fst (group_wobbler_kits stores 10))) = 1"
    using cnt [of 10] by auto
  have lk: "snd (group_wobbler_kits stores m) (store_id s1)
      = snd (group_wobbler_kits stores m) (store_id s2)" if inj: "inj_on store_id (set stores)"
  proof -
    from group_wobbler_kits_characterised [of stores m] obtain ks
      where ks: "group_wobbler_kits stores m = (sort_kits ks, kit_lookup (sort_kits ks))"
        and f: "\<forall>k \<in> set ks.
           store_ids k = map store_id (group_members stores (kit_signature k))
         \<and> kit_stores k = sort (map store_name (group_members stores (kit_signature k)))
         \<and> store_count k = int (length (group_members stores (kit_signature k)))"
      by blast
    have "store_id s1 \<in> set (store_ids k) \<longleftrightarrow> store_id s2 \<in> set (store_ids k)"
      if "k \<in> set (sort_kits ks)" for k
    proof -
      from that have "k \<in> set ks" by (simp add: sort_kits_def)
      with f have i: "store_ids k = map store_id (group_members stores (kit_signature k))"
        by blast
      have "s1 \<in> set (group_members stores (kit_signature k))
          \<longleftrightarrow> s2 \<in> set (group_members stores (kit_signature k))"
        using assms(1,2) q1 q2 e by (auto simp: group_members_def)
      then show ?thesis
        unfolding i member_by_id [OF inj assms(1)] member_by_id [OF inj assms(2)] .
    qed
    then have "kit_lookup (sort_kits ks) (store_id s1) = kit_lookup (sort_kits ks) (store_id s2)"
      by (intro kit_lookup_same) blast
    then show ?thesis by (simp add: ks)
  qed
  from e g1 g2 kits cnt [of m] nine ten lk show ?thesis unfolding Let_def by blast
qed

lemma canon_shelf_wobbler: "canon ''Shelf Wobbler'' = ''shelf wobbler''"
  by code_simp

lemma canon_letters:
  "canon ''A'' = ''a''" "canon ''B'' = ''b''" "canon ''C'' = ''c''" "canon ''D'' = ''d''"
  by code_simp+

lemma kit_example_pairs:
  "qualifying_pairs kit_s1 = [(''a'', 1), (''b'', 2)]"
  "qualifying_pairs kit_s2 = [(''c'', 1), (''d'', 2)]"
  "qualifying_pairs kit_s3 = [(''d'', 2), (''c'', 1)]"
  by (simp_all add: kit_s1_def kit_s2_def kit_s3_def qualifying_pairs_def mk_store_def
      mk_item_def canon_shelf_wobbler canon_letters PREDETERMINED_WOBBLERS_CANON_def)

lemma kit_example_sorted:
  "sort (qualifying_pairs kit_s1) = [(''a'', 1), (''b'', 2)]"
  "sort (qualifying_pairs kit_s2) = [(''c'', 1), (''d'', 2)]"
  "sort (qualifying_pairs kit_s3) = [(''c'', 1), (''d'', 2)]"
  unfolding kit_example_pairs by code_simp+

lemma kit_example_group:
  "group_members kit_example [(''c'', 1), (''d'', 2)] = [kit_s2, kit_s3]"
  by (simp add: group_members_def kit_example_def qualifies_def kit_example_sorted
      kit_example_pairs)

text \<open>
  Claim C1 at two stores that list the same combination in different orders.
\<close>

theorem kit_grouping_same_kit_witness:
  "mset (qualifying_pairs kit_s2) = mset (qualifying_pairs kit_s3)
   \<and> qualifying_pairs kit_s2 \<noteq> qualifying_pairs kit_s3
   \<and> map (\<lambda>k. (store_ids k, store_count k))
       (filter (\<lambda>k. kit_signature k = sort (qualifying_pairs kit_s2))
          (fst (group_wobbler_kits kit_example 2)))
     = [([''S2|'', ''S3|''], 2)]"
proof -
  let ?f = "filter (\<lambda>k. kit_signature k = sort (qualifying_pairs kit_s2))
      (fst (group_wobbler_kits kit_example 2))"
  have m: "mset (qualifying_pairs kit_s2) = mset (qualifying_pairs kit_s3)"
    by (simp add: kit_example_pairs)
  have ne: "qualifying_pairs kit_s2 \<noteq> qualifying_pairs kit_s3"
    by (simp add: kit_example_pairs)
  have i1: "kit_s2 \<in> set kit_example" and i2: "kit_s3 \<in> set kit_example"
    by (simp_all add: kit_example_def)
  have l: "2 \<le> length (qualifying_pairs kit_s2)" by (simp add: kit_example_pairs)
  have ids: "map store_id [kit_s2, kit_s3] = [''S2|'', ''S3|'']"
    by (simp add: kit_s2_def kit_s3_def mk_store_def)
  have len: "int (length [kit_s2, kit_s3]) = 2" by simp
  from kit_grouping_same_kit [OF i1 i2 l m, of 2]
  have "(\<forall>k \<in> set (fst (group_wobbler_kits kit_example 2)).
           kit_signature k = sort (qualifying_pairs kit_s2) \<longrightarrow>
           store_ids k = map store_id [kit_s2, kit_s3] \<and> store_count k = int (length [kit_s2, kit_s3]))
     \<and> length ?f = (if (2::int) \<le> int (length [kit_s2, kit_s3]) then 1 else 0)"
    unfolding Let_def kit_example_sorted kit_example_group by blast
  then have all: "\<forall>k \<in> set ?f. store_ids k = [''S2|'', ''S3|''] \<and> store_count k = 2"
    and one: "length ?f = 1"
    unfolding ids len by simp_all
  from one obtain k where k: "?f = [k]" by (cases ?f) auto
  with all have "store_ids k = [''S2|'', ''S3|''] \<and> store_count k = 2" by simp
  with k have "map (\<lambda>k. (store_ids k, store_count k)) ?f = [([''S2|'', ''S3|''], 2)]" by simp
  with m ne show ?thesis by (intro conjI)
qed

lemma sort_kits_descending:
  "sorted_wrt (\<lambda>a b. store_count b \<le> store_count a) (sort_kits ks)"
proof -
  have "sorted (map (\<lambda>k. - store_count k) (sort_kits ks))"
    unfolding sort_kits_def by (rule sorted_sort_key)
  then show ?thesis by (simp add: sorted_map)
qed

text \<open>
  Claim C6: the kits are built in a list whose labels are \<open>1\<close>, \<open>2\<close>, ... in order and
  whose signatures are the retained ones in the order of first appearance among the
  stores; the returned list is the stable sort of that list by descending
  \<open>store_count\<close>. On \<open>kit_example\<close> with \<open>min_stores = 1\<close> the returned list begins
  with the kit labelled \<open>2\<close>: the label order and the final order differ.
\<close>

theorem kit_labels_then_sort:
  "(\<exists>ks. map kit_name ks = map show_nat [1 ..< Suc (length ks)]
        \<and> map kit_signature ks = retained stores m
        \<and> fst (group_wobbler_kits stores m) = sort_key (\<lambda>k. - store_count k) ks)
   \<and> sorted_wrt (\<lambda>a b. store_count b \<le> store_count a) (fst (group_wobbler_kits stores m))
   \<and> map kit_name (fst (group_wobbler_kits kit_example 1)) = [''2'', ''1'']"
proof -
  from group_wobbler_kits_characterised [of stores m] obtain ks
    where ks: "group_wobbler_kits stores m = (sort_kits ks, kit_lookup (sort_kits ks))"
      "map kit_name ks = map show_nat [1 ..< Suc (length ks)]"
      "map kit_signature ks = retained stores m"
    by blast
  from ks(1) have f: "fst (group_wobbler_kits stores m) = sort_key (\<lambda>k. - store_count k) ks"
    by (simp add: sort_kits_def)
  from ks(1) have d: "sorted_wrt (\<lambda>a b. store_count b \<le> store_count a)
      (fst (group_wobbler_kits stores m))"
    by (simp add: sort_kits_descending)
  have x: "map kit_name (fst (group_wobbler_kits kit_example 1)) = [''2'', ''1'']"
    by code_simp
  from ks(2,3) f d x show ?thesis by blast
qed

text \<open>
  Claim C6 on \<open>kit_example\<close>: the labelled list and the returned list.
\<close>

theorem kit_labels_then_sort_witness:
  "retained kit_example 1 = [[(''a'', 1), (''b'', 2)], [(''c'', 1), (''d'', 2)]]
   \<and> (\<exists>ks. map kit_name ks = [''1'', ''2'']
        \<and> map kit_signature ks = [[(''a'', 1), (''b'', 2)], [(''c'', 1), (''d'', 2)]]
        \<and> fst (group_wobbler_kits kit_example 1) = sort_key (\<lambda>k. - store_count k) ks)
   \<and> map kit_name (fst (group_wobbler_kits kit_example 1)) = [''2'', ''1'']"
proof -
  have r: "retained kit_example 1 = [[(''a'', 1), (''b'', 2)], [(''c'', 1), (''d'', 2)]]"
    by (simp add: retained_def signatures_seen_def first_seen_def kit_example_def qualifies_def
        group_members_def kit_example_sorted kit_example_pairs)
  note t = kit_labels_then_sort [of kit_example 1]
  have x: "map kit_name (fst (group_wobbler_kits kit_example 1)) = [''2'', ''1'']"
    using t by (rule conjunct2 [THEN conjunct2])
  have "\<exists>ks. map kit_name ks = map show_nat [1 ..< Suc (length ks)]
        \<and> map kit_signature ks = retained kit_example 1
        \<and> fst (group_wobbler_kits kit_example 1) = sort_key (\<lambda>k. - store_count k) ks"
    using t by (rule conjunct1)
  then obtain ks
    where ks: "map kit_name ks = map show_nat [1 ..< Suc (length ks)]"
      "map kit_signature ks = retained kit_example 1"
      "fst (group_wobbler_kits kit_example 1) = sort_key (\<lambda>k. - store_count k) ks"
    by (elim exE conjE)
  from ks(2) r have "length ks = 2" by (metis length_map length_Cons list.size(3) Suc_1 One_nat_def)
  moreover have "map show_nat [1 ..< Suc 2] = [''1'', ''2'']" by code_simp
  ultimately have "map show_nat [1 ..< Suc (length ks)] = [''1'', ''2'']" by (simp only:)
  with ks(1) have n: "map kit_name ks = [''1'', ''2'']" by simp
  from ks(2) r have sg: "map kit_signature ks = [[(''a'', 1), (''b'', 2)], [(''c'', 1), (''d'', 2)]]"
    by simp
  have "\<exists>ks. map kit_name ks = [''1'', ''2'']
        \<and> map kit_signature ks = [[(''a'', 1), (''b'', 2)], [(''c'', 1), (''d'', 2)]]
        \<and> fst (group_wobbler_kits kit_example 1) = sort_key (\<lambda>k. - store_count k) ks"
    using n sg ks(3) by (intro exI [of _ ks] conjI)
  with r x show ?thesis by (intro conjI)
qed

end
